theory Spec2Isabelle
  imports Complex_Main "HOL-Library.Word"
begin

unbundle bit_operations_syntax

section \<open>ETS CAN bus sniffer: shallow embedding of the firmware\<close>

text \<open>
  The repository holds two firmware variants for an ESP32 with an MCP2515 CAN
  controller: the WiFi variant (\<^verbatim>\<open>main_wifi.cpp\<close>) and the serial variant.
  Global variables become fields of one state record per variant, every function
  takes the state and returns the new one.  On the ESP32 \<^verbatim>\<open>unsigned long\<close> and
  \<^verbatim>\<open>uint32_t\<close> are 32 bits wide and \<^verbatim>\<open>uint8_t\<close> is 8 bits wide; they are
  words and wrap around.  The \<^verbatim>\<open>int\<close> variables (indices and fill levels) stay
  between 0 and 500 in every reachable state and are modelled as \<open>int\<close>.
\<close>

subsection \<open>Machine types and constants\<close>

type_synonym u8 = "8 word"
type_synonym u32 = "32 word"
type_synonym ulong = "32 word"

datatype can_baud_t = BAUD_125K | BAUD_250K | BAUD_500K | BAUD_1M

definition LOG_BUFFER_SIZE :: int where
  "LOG_BUFFER_SIZE = 500"

definition MAX_UNIQUE_IDS :: int where
  "MAX_UNIQUE_IDS = 256"

definition NUL :: char where
  "NUL = CHR 0x00"

subsection \<open>C library routines used by the firmware\<close>

text \<open>
  \<^verbatim>\<open>memcpy(dest, src, n)\<close> on byte arrays held as lists: the first \<open>n\<close> bytes of
  \<open>dest\<close> are replaced by the first \<open>n\<close> bytes of \<open>src\<close>.  Copying more bytes than
  either array holds is undefined behaviour in C; the model returns \<open>None\<close> there.
\<close>

definition memcpy :: "u8 list \<Rightarrow> u8 list \<Rightarrow> nat \<Rightarrow> u8 list option" where
  "memcpy dest src n =
     (if n \<le> length dest \<and> n \<le> length src then Some (take n src @ drop n dest) else None)"

text \<open>
  \<^verbatim>\<open>strncpy(dest, src, n)\<close>: \<open>src\<close> is a C string (it ends at its first NUL, or at
  the end of the list, where the terminator stands); at most \<open>n\<close> characters are
  copied and the rest of the first \<open>n\<close> positions is filled with NUL.
\<close>

definition c_str :: "string \<Rightarrow> string" where
  "c_str s = takeWhile (\<lambda>c. c \<noteq> NUL) s"

definition strncpy :: "string \<Rightarrow> string \<Rightarrow> nat \<Rightarrow> string" where
  "strncpy dest src n =
     (let s = take n (c_str src) in s @ replicate (n - length s) NUL @ drop n dest)"



subsection \<open>Global state of the WiFi variant\<close>

record LogEntry =
  timestamp :: ulong
  seq :: u32
  can_id :: u32
  extended :: bool
  rtr :: bool
  dlc :: u8
  data :: "u8 list"
  isMark :: bool
  markText :: string

record globals =
  currentBaud :: can_baud_t
  messageCount :: ulong
  errorCount :: ulong
  startTime :: ulong
  logBuffer :: "LogEntry list"
  logHead :: int
  logCount :: int
  nextSeq :: u32
  seenIds :: "u32 list"
  idCounts :: "ulong list"
  lastData :: "u8 list list"
  uniqueIdCount :: int

text \<open>Static storage is zero-initialised unless an initialiser says otherwise.\<close>

definition zero_entry :: LogEntry where
  "zero_entry = \<lparr>timestamp = 0, seq = 0, can_id = 0, extended = False, rtr = False,
     dlc = 0, data = replicate 8 0, isMark = False, markText = replicate 40 NUL\<rparr>"

definition init_globals :: globals where
  "init_globals = \<lparr>currentBaud = BAUD_250K, messageCount = 0, errorCount = 0, startTime = 0,
     logBuffer = replicate (nat LOG_BUFFER_SIZE) zero_entry, logHead = 0, logCount = 0,
     nextSeq = 1,
     seenIds = replicate (nat MAX_UNIQUE_IDS) 0, idCounts = replicate (nat MAX_UNIQUE_IDS) 0,
     lastData = replicate (nat MAX_UNIQUE_IDS) (replicate 8 0), uniqueIdCount = 0\<rparr>"

subsection \<open>Identifier table (WiFi variant)\<close>

text \<open>
  The search loop \<^verbatim>\<open>for (int i = 0; i < n; i++) if (ids[i] == id) ...\<close>, shared by
  \<^verbatim>\<open>findOrAddId\<close> and by the scan: the first index below \<open>n\<close> that holds \<open>cid\<close>.
\<close>

function find_loop :: "u32 list \<Rightarrow> int \<Rightarrow> u32 \<Rightarrow> int \<Rightarrow> int option" where
  "find_loop ids n cid i =
     (if i < n then (if ids ! nat i = cid then Some i else find_loop ids n cid (i + 1))
      else None)"
  by pat_completeness auto
termination
  by (relation "measure (\<lambda>(ids, n, cid, i). nat (n - i))") auto

declare find_loop.simps [simp del]

definition findOrAddId :: "u32 \<Rightarrow> u8 list \<Rightarrow> u8 \<Rightarrow> globals \<Rightarrow> (int \<times> globals) option" where
  "findOrAddId cid payload len s =
     (case find_loop (seenIds s) (uniqueIdCount s) cid 0 of
        Some i \<Rightarrow>
          (case memcpy (lastData s ! nat i) payload (unat len) of
             None \<Rightarrow> None
           | Some row \<Rightarrow>
               Some (i, s\<lparr>idCounts := (idCounts s)[nat i := idCounts s ! nat i + 1],
                          lastData := (lastData s)[nat i := row]\<rparr>))
      | None \<Rightarrow>
          if uniqueIdCount s < MAX_UNIQUE_IDS then
            (case memcpy (lastData s ! nat (uniqueIdCount s)) payload (unat len) of
               None \<Rightarrow> None
             | Some row \<Rightarrow>
                 Some (uniqueIdCount s + 1 - 1,
                       s\<lparr>seenIds := (seenIds s)[nat (uniqueIdCount s) := cid],
                         idCounts := (idCounts s)[nat (uniqueIdCount s) := 1],
                         lastData := (lastData s)[nat (uniqueIdCount s) := row],
                         uniqueIdCount := uniqueIdCount s + 1\<rparr>))
          else Some (- 1, s))"


subsection \<open>Event log (WiFi variant)\<close>

text \<open>
  The two statements that close \<^verbatim>\<open>addToLog\<close> and \<^verbatim>\<open>addMarkToLog\<close>:
  \<^verbatim>\<open>logHead = (logHead + 1) % LOG_BUFFER_SIZE; if (logCount < LOG_BUFFER_SIZE) logCount++;\<close>
  (the operands of \<^verbatim>\<open>%\<close> are not negative, so it is \<open>mod\<close>).
\<close>

definition advance_log :: "globals \<Rightarrow> globals" where
  "advance_log s =
     (let s1 = s\<lparr>logHead := (logHead s + 1) mod LOG_BUFFER_SIZE\<rparr>
      in if logCount s1 < LOG_BUFFER_SIZE then s1\<lparr>logCount := logCount s1 + 1\<rparr> else s1)"

text \<open>
  \<open>now\<close> is the value \<^verbatim>\<open>millis()\<close> returns inside the call.  What the functions
  print on the serial line or send to the HTTP client is output only and is left out,
  except where a handler's answer is the subject (\<^verbatim>\<open>handleLog\<close>, \<^verbatim>\<open>handleCSV\<close>,
  the scan results).
\<close>

definition addToLog ::
    "ulong \<Rightarrow> u32 \<Rightarrow> bool \<Rightarrow> bool \<Rightarrow> u8 \<Rightarrow> u8 list \<Rightarrow> globals \<Rightarrow> globals option" where
  "addToLog now cid ext rt len payload s =
     (let old = logBuffer s ! nat (logHead s) in
      case memcpy (data old) payload 8 of
        None \<Rightarrow> None
      | Some bytes \<Rightarrow>
          let entry = old\<lparr>timestamp := now - startTime s, seq := nextSeq s, can_id := cid,
                extended := ext, rtr := rt, dlc := len, data := bytes, isMark := False,
                markText := (markText old)[0 := NUL]\<rparr>
          in Some (advance_log
               (s\<lparr>logBuffer := (logBuffer s)[nat (logHead s) := entry],
                  nextSeq := nextSeq s + 1\<rparr>)))"

definition addMarkToLog :: "ulong \<Rightarrow> string \<Rightarrow> globals \<Rightarrow> globals" where
  "addMarkToLog now text s =
     (let old = logBuffer s ! nat (logHead s);
          entry = old\<lparr>timestamp := now - startTime s, seq := nextSeq s, can_id := 0,
                extended := False, rtr := False, dlc := 0,
                data := replicate 8 0 @ drop 8 (data old), isMark := True,
                markText := (strncpy (markText old) text (40 - 1))[40 - 1 := NUL]\<rparr>
      in advance_log
           (s\<lparr>logBuffer := (logBuffer s)[nat (logHead s) := entry],
              nextSeq := nextSeq s + 1\<rparr>))"


definition handleClear :: "ulong \<Rightarrow> globals \<Rightarrow> globals" where
  "handleClear now s =
     s\<lparr>messageCount := 0, errorCount := 0, uniqueIdCount := 0, logHead := 0, logCount := 0,
       startTime := now\<rparr>"

text \<open>
  \<^verbatim>\<open>handleLog\<close> visits \<open>count\<close> slots, starting \<open>count\<close> slots behind the head, and
  renders each as JSON; the model returns the entries visited, in the order visited,
  and the state, which the function never writes.  The source fixes the bound at 100;
  \<open>snapshot\<close> takes it as \<open>maxCount\<close>.
\<close>

fun walk :: "LogEntry list \<Rightarrow> int \<Rightarrow> nat \<Rightarrow> LogEntry list" where
  "walk buf idx 0 = []"
| "walk buf idx (Suc k) = buf ! nat idx # walk buf ((idx + 1) mod LOG_BUFFER_SIZE) k"

definition snapshot :: "int \<Rightarrow> globals \<Rightarrow> LogEntry list \<times> globals" where
  "snapshot maxCount s =
     (let count = min maxCount (logCount s);
          idx = (logHead s - count + LOG_BUFFER_SIZE) mod LOG_BUFFER_SIZE
      in (walk (logBuffer s) idx (nat count), s))"

definition handleLog :: "globals \<Rightarrow> LogEntry list \<times> globals" where
  "handleLog s = snapshot 100 s"

text \<open>\<^verbatim>\<open>handleCSV\<close> visits every retained slot, oldest first, and renders it as a CSV row.\<close>

definition handleCSV :: "globals \<Rightarrow> LogEntry list \<times> globals" where
  "handleCSV s =
     (let start = (if logCount s < LOG_BUFFER_SIZE then 0 else logHead s)
      in (map (\<lambda>i. logBuffer s ! nat ((start + int i) mod LOG_BUFFER_SIZE))
            [0 ..< nat (logCount s)], s))"

text \<open>
  \<^verbatim>\<open>handleBaud\<close>: the argument \<^verbatim>\<open>v\<close>, read with \<^verbatim>\<open>toInt()\<close>, selects the rate; the
  controller is then initialised again at \<^verbatim>\<open>currentBaud\<close> (a hardware effect, its
  result ignored by the source).
\<close>

definition handleBaud :: "int option \<Rightarrow> globals \<Rightarrow> globals" where
  "handleBaud arg s =
     (case arg of
        None \<Rightarrow> s
      | Some v \<Rightarrow>
          s\<lparr>currentBaud :=
              (if v = 1 then BAUD_125K else if v = 2 then BAUD_250K
               else if v = 3 then BAUD_500K else if v = 4 then BAUD_1M
               else currentBaud s)\<rparr>)"

text \<open>
  One pass of \<^verbatim>\<open>loop()\<close> over the CAN controller: the interrupt pin is high (nothing
  to read), or \<^verbatim>\<open>readMsgBuf\<close> delivers a frame, or it fails.
\<close>

datatype poll = PinHigh | RxOk ulong u8 "u8 list" | RxErr

definition loop_can :: "ulong \<Rightarrow> poll \<Rightarrow> globals \<Rightarrow> globals option" where
  "loop_can now p s =
     (case p of
        RxOk rxId len payload \<Rightarrow>
          (let ext = (rxId AND 0x80000000 \<noteq> 0);
               rt = (rxId AND 0x40000000 \<noteq> 0);
               canId = rxId AND 0x1FFFFFFF;
               s1 = s\<lparr>messageCount := messageCount s + 1\<rparr>
           in case findOrAddId canId payload len s1 of
                None \<Rightarrow> None
              | Some (i, s2) \<Rightarrow> addToLog now canId ext rt len payload s2)
      | _ \<Rightarrow> Some s)"

subsection \<open>Single precision arithmetic\<close>

text \<open>
  \<^verbatim>\<open>float\<close> is IEEE 754 binary32.  A finite value is a rational number; \<open>f32_round\<close>
  rounds a rational to the nearest binary32 value, ties to even (24 significant bits,
  least exponent \<open>-126\<close>).  The values of the scan stay far below the overflow
  threshold \<open>2 ^ 128\<close>, so infinities are not modelled.
\<close>

fun bitlen :: "nat \<Rightarrow> nat" where
  "bitlen n = (if n = 0 then 0 else Suc (bitlen (n div 2)))"

declare bitlen.simps [simp del]

definition f32_round :: "rat \<Rightarrow> rat" where
  "f32_round x =
     (if x = 0 then 0 else
      let a = \<bar>x\<bar>;
          (p, q) = quotient_of a;
          k = int (bitlen (nat p)) - int (bitlen (nat q));
          e = (if 2 powi k \<le> a then k else k - 1);
          u = 2 powi (max e (- 126) - 23);
          t = a / u;
          n = \<lfloor>t\<rfloor>;
          r = t - of_int n;
          m = (if r < 1 / 2 then n else if 1 / 2 < r then n + 1
               else if even n then n else n + 1)
      in sgn x * of_int m * u)"

definition f32_of_ulong :: "ulong \<Rightarrow> rat" where
  "f32_of_ulong w = f32_round (of_nat (unat w))"

definition f32_of_int :: "int \<Rightarrow> rat" where
  "f32_of_int i = f32_round (of_int i)"

definition f32_div :: "rat \<Rightarrow> rat \<Rightarrow> rat" where
  "f32_div a b = f32_round (a / b)"

definition f32_mul :: "rat \<Rightarrow> rat \<Rightarrow> rat" where
  "f32_mul a b = f32_round (a * b)"

subsection \<open>Bit rate scan (WiFi variant: \<^verbatim>\<open>handleScan\<close>)\<close>

record scan_vars =
  scanUniqueIds :: int
  scanMsgCount :: ulong
  scanIds :: "u32 list"
  scanIdCounts :: "ulong list"

definition scan_reset :: scan_vars where
  "scan_reset = \<lparr>scanUniqueIds = 0, scanMsgCount = 0, scanIds = replicate 64 0,
     scanIdCounts = replicate 64 0\<rparr>"

text \<open>
  What both scans do with a frame that \<^verbatim>\<open>readMsgBuf\<close> delivered (the text of the
  branch is the same in \<^verbatim>\<open>handleScan\<close> and \<^verbatim>\<open>autoScan\<close>).
\<close>

definition scan_rx :: "ulong \<Rightarrow> 'a scan_vars_scheme \<Rightarrow> 'a scan_vars_scheme" where
  "scan_rx rxId t =
     (let canId = rxId AND 0x1FFFFFFF;
          t1 = t\<lparr>scanMsgCount := scanMsgCount t + 1\<rparr>
      in case find_loop (scanIds t1) (scanUniqueIds t1) canId 0 of
           Some i \<Rightarrow> t1\<lparr>scanIdCounts := (scanIdCounts t1)[nat i := scanIdCounts t1 ! nat i + 1]\<rparr>
         | None \<Rightarrow>
             if scanUniqueIds t1 < 64 then
               t1\<lparr>scanIds := (scanIds t1)[nat (scanUniqueIds t1) := canId],
                  scanIdCounts := (scanIdCounts t1)[nat (scanUniqueIds t1) := 1],
                  scanUniqueIds := scanUniqueIds t1 + 1\<rparr>
             else t1)"

text \<open>The body of the polling loop of \<^verbatim>\<open>handleScan\<close>: a failed read has no branch.\<close>

definition handleScan_poll :: "poll \<Rightarrow> scan_vars \<Rightarrow> scan_vars" where
  "handleScan_poll p t = (case p of RxOk rxId len payload \<Rightarrow> scan_rx rxId t | _ \<Rightarrow> t)"

text \<open>
  The loop \<^verbatim>\<open>while (millis() - scanStart < window) { body }\<close>.  The environment is
  the list of the loop's passes: what \<^verbatim>\<open>millis()\<close> returns in the loop test, and what
  the poll in the body finds.  The first pass whose clock value is outside the window
  leaves the loop.
\<close>

fun scan_window :: "(poll \<Rightarrow> 't \<Rightarrow> 't) \<Rightarrow> ulong \<Rightarrow> ulong \<Rightarrow> (ulong \<times> poll) list \<Rightarrow> 't \<Rightarrow> 't" where
  "scan_window body window scanStart [] t = t"
| "scan_window body window scanStart ((now, p) # passes) t =
     (if now - scanStart < window then scan_window body window scanStart passes (body p t)
      else t)"

text \<open>Rating one candidate from its message count and its number of identifiers.\<close>

datatype verdict_t = INIT_FAIL | NO_DATA | LIKELY_CORRECT | NOISE | UNCERTAIN

definition repeatRate :: "ulong \<Rightarrow> int \<Rightarrow> rat" where
  "repeatRate msgs ids =
     (if ids > 0 \<and> msgs > 0 then f32_div (f32_of_ulong msgs) (f32_of_int ids) else 0)"

definition score :: "ulong \<Rightarrow> int \<Rightarrow> rat" where
  "score msgs ids =
     (let sc = repeatRate msgs ids
      in if ids > 30 then f32_mul sc (f32_round (1 / 10)) else sc)"

definition verdict :: "ulong \<Rightarrow> int \<Rightarrow> verdict_t" where
  "verdict msgs ids =
     (if msgs = 0 then NO_DATA
      else if ids \<le> 20 \<and> repeatRate msgs ids > f32_of_int 10 then LIKELY_CORRECT
      else if ids > 30 then NOISE
      else UNCERTAIN)"

text \<open>One object of the JSON array that \<^verbatim>\<open>handleScan\<close> sends.\<close>

record scan_result =
  r_baud :: can_baud_t
  r_msgs :: ulong
  r_ids :: int
  r_repeat :: rat
  r_verdict :: verdict_t
  r_idList :: "(u32 \<times> ulong) list option"

definition idList :: "'a scan_vars_scheme \<Rightarrow> (u32 \<times> ulong) list option" where
  "idList t =
     (if scanUniqueIds t > 0 \<and> scanUniqueIds t \<le> 20
      then Some (map (\<lambda>i. (scanIds t ! i, scanIdCounts t ! i)) [0 ..< nat (scanUniqueIds t)])
      else None)"

text \<open>
  What the environment does to one candidate: \<^verbatim>\<open>initCAN\<close> fails, or it succeeds and
  the window runs with \<^verbatim>\<open>scanStart\<close> and the passes given.
\<close>

datatype trial_env = InitFails | InitOk ulong "(ulong \<times> poll) list"

definition rates :: "can_baud_t list" where
  "rates = [BAUD_125K, BAUD_250K, BAUD_500K, BAUD_1M]"

record scan_acc =
  json :: "scan_result list"
  bestRate :: int
  bestScore :: rat

text \<open>
  The loop \<^verbatim>\<open>for (int r = 0; r < 4; r++)\<close>, one environment per candidate.  After the
  loop \<^verbatim>\<open>handleScan\<close> initialises the controller at \<^verbatim>\<open>currentBaud\<close> again, which
  changes no variable of the program.
\<close>

fun handleScan_loop :: "trial_env list \<Rightarrow> int \<Rightarrow> scan_acc \<Rightarrow> scan_acc" where
  "handleScan_loop [] r acc = acc"
| "handleScan_loop (InitFails # envs) r acc =
     handleScan_loop envs (r + 1)
       (acc\<lparr>json := json acc @ [\<lparr>r_baud = rates ! nat r, r_msgs = 0, r_ids = 0, r_repeat = 0,
          r_verdict = INIT_FAIL, r_idList = None\<rparr>]\<rparr>)"
| "handleScan_loop (InitOk scanStart passes # envs) r acc =
     (let t = scan_window handleScan_poll 3000 scanStart passes scan_reset;
          res = \<lparr>r_baud = rates ! nat r, r_msgs = scanMsgCount t, r_ids = scanUniqueIds t,
                 r_repeat = repeatRate (scanMsgCount t) (scanUniqueIds t),
                 r_verdict = verdict (scanMsgCount t) (scanUniqueIds t), r_idList = idList t\<rparr>;
          acc1 = acc\<lparr>json := json acc @ [res]\<rparr>;
          sc = score (scanMsgCount t) (scanUniqueIds t)
      in handleScan_loop envs (r + 1)
           (if sc > bestScore acc1 then acc1\<lparr>bestScore := sc, bestRate := r\<rparr> else acc1))"

definition handleScan :: "trial_env list \<Rightarrow> globals \<Rightarrow> scan_result list \<times> globals" where
  "handleScan envs s =
     (let acc = handleScan_loop (take 4 envs) 0 \<lparr>json = [], bestRate = - 1, bestScore = 0\<rparr>
      in (json acc,
          if bestRate acc \<ge> 0 then s\<lparr>currentBaud := rates ! nat (bestRate acc)\<rparr> else s))"

subsection \<open>Serial variant\<close>

record serial_globals =
  s_currentBaud :: can_baud_t
  s_messageCount :: ulong
  s_errorCount :: ulong
  s_startTime :: ulong
  s_seenIds :: "u32 list"
  s_idCounts :: "ulong list"
  s_uniqueIdCount :: int
  awaitingMark :: bool

definition init_serial :: serial_globals where
  "init_serial = \<lparr>s_currentBaud = BAUD_250K, s_messageCount = 0, s_errorCount = 0,
     s_startTime = 0, s_seenIds = replicate (nat MAX_UNIQUE_IDS) 0,
     s_idCounts = replicate (nat MAX_UNIQUE_IDS) 0, s_uniqueIdCount = 0, awaitingMark = False\<rparr>"

definition s_findOrAddId :: "u32 \<Rightarrow> serial_globals \<Rightarrow> int \<times> serial_globals" where
  "s_findOrAddId cid s =
     (case find_loop (s_seenIds s) (s_uniqueIdCount s) cid 0 of
        Some i \<Rightarrow> (i, s\<lparr>s_idCounts := (s_idCounts s)[nat i := s_idCounts s ! nat i + 1]\<rparr>)
      | None \<Rightarrow>
          if s_uniqueIdCount s < MAX_UNIQUE_IDS then
            (s_uniqueIdCount s + 1 - 1,
             s\<lparr>s_seenIds := (s_seenIds s)[nat (s_uniqueIdCount s) := cid],
               s_idCounts := (s_idCounts s)[nat (s_uniqueIdCount s) := 1],
               s_uniqueIdCount := s_uniqueIdCount s + 1\<rparr>)
          else (- 1, s))"

definition clearCounts :: "ulong \<Rightarrow> serial_globals \<Rightarrow> serial_globals" where
  "clearCounts now s =
     s\<lparr>s_messageCount := 0, s_errorCount := 0, s_uniqueIdCount := 0,
       s_seenIds := replicate (length (s_seenIds s)) 0,
       s_idCounts := replicate (length (s_idCounts s)) 0, s_startTime := now\<rparr>"

record autoScan_vars = scan_vars +
  scanErrCount :: ulong

definition autoScan_reset :: autoScan_vars where
  "autoScan_reset = \<lparr>scanUniqueIds = 0, scanMsgCount = 0, scanIds = replicate 64 0,
     scanIdCounts = replicate 64 0, scanErrCount = 0\<rparr>"

text \<open>The body of the polling loop of \<^verbatim>\<open>autoScan\<close>: a failed read is counted.\<close>

definition autoScan_poll :: "poll \<Rightarrow> autoScan_vars \<Rightarrow> autoScan_vars" where
  "autoScan_poll p t =
     (case p of
        RxOk rxId len payload \<Rightarrow> scan_rx rxId t
      | RxErr \<Rightarrow> t\<lparr>scanErrCount := scanErrCount t + 1\<rparr>
      | PinHigh \<Rightarrow> t)"

definition errRate :: "autoScan_vars \<Rightarrow> rat" where
  "errRate t =
     (if scanMsgCount t + scanErrCount t > 0
      then f32_mul (f32_div (f32_of_ulong (scanErrCount t))
                      (f32_of_ulong (scanMsgCount t + scanErrCount t))) 100
      else 0)"

text \<open>One line that \<^verbatim>\<open>autoScan\<close> prints for a candidate that could be initialised.\<close>

record autoScan_line =
  l_baud :: can_baud_t
  l_msgs :: ulong
  l_ids :: int
  l_repeat :: rat
  l_errors :: rat
  l_verdict :: verdict_t
  l_idList :: "(u32 \<times> ulong) list option"

record autoScan_acc =
  printed :: "autoScan_line list"
  a_bestRate :: int
  a_bestScore :: rat

fun autoScan_loop :: "trial_env list \<Rightarrow> int \<Rightarrow> autoScan_acc \<Rightarrow> autoScan_acc" where
  "autoScan_loop [] r acc = acc"
| "autoScan_loop (InitFails # envs) r acc =
     autoScan_loop envs (r + 1)
       (acc\<lparr>printed := printed acc @ [\<lparr>l_baud = rates ! nat r, l_msgs = 0, l_ids = 0,
          l_repeat = 0, l_errors = 0, l_verdict = INIT_FAIL, l_idList = None\<rparr>]\<rparr>)"
| "autoScan_loop (InitOk scanStart passes # envs) r acc =
     (let t = scan_window autoScan_poll 5000 scanStart passes autoScan_reset;
          res = \<lparr>l_baud = rates ! nat r, l_msgs = scanMsgCount t, l_ids = scanUniqueIds t,
                 l_repeat = repeatRate (scanMsgCount t) (scanUniqueIds t),
                 l_errors = errRate t,
                 l_verdict = verdict (scanMsgCount t) (scanUniqueIds t), l_idList = idList t\<rparr>;
          acc1 = acc\<lparr>printed := printed acc @ [res]\<rparr>;
          sc = score (scanMsgCount t) (scanUniqueIds t)
      in autoScan_loop envs (r + 1)
           (if sc > a_bestScore acc1 then acc1\<lparr>a_bestScore := sc, a_bestRate := r\<rparr> else acc1))"

text \<open>\<open>now\<close> is the clock value that \<^verbatim>\<open>clearCounts\<close> reads when a rate was chosen.\<close>

definition autoScan :: "trial_env list \<Rightarrow> ulong \<Rightarrow> serial_globals
    \<Rightarrow> autoScan_line list \<times> serial_globals" where
  "autoScan envs now s =
     (let acc = autoScan_loop (take 4 envs) 0 \<lparr>printed = [], a_bestRate = - 1, a_bestScore = 0\<rparr>
      in (printed acc,
          if a_bestRate acc \<ge> 0
          then clearCounts now (s\<lparr>s_currentBaud := rates ! nat (a_bestRate acc)\<rparr>)
          else s))"

text \<open>
  The command switch of the serial \<^verbatim>\<open>loop()\<close>, for a character read while no
  annotation is awaited; \<open>envs\<close> is the environment of a scan the command may start.
\<close>

definition serial_command :: "char \<Rightarrow> trial_env list \<Rightarrow> ulong \<Rightarrow> serial_globals \<Rightarrow> serial_globals" where
  "serial_command cmd envs now s =
     (if cmd = CHR ''1'' then clearCounts now (s\<lparr>s_currentBaud := BAUD_125K\<rparr>)
      else if cmd = CHR ''2'' then clearCounts now (s\<lparr>s_currentBaud := BAUD_250K\<rparr>)
      else if cmd = CHR ''3'' then clearCounts now (s\<lparr>s_currentBaud := BAUD_500K\<rparr>)
      else if cmd = CHR ''4'' then clearCounts now (s\<lparr>s_currentBaud := BAUD_1M\<rparr>)
      else if cmd = CHR ''a'' \<or> cmd = CHR ''A'' then snd (autoScan envs now s)
      else if cmd = CHR ''c'' \<or> cmd = CHR ''C'' then clearCounts now s
      else if cmd = CHR ''m'' \<or> cmd = CHR ''M'' then s\<lparr>awaitingMark := True\<rparr>
      else s)"

subsection \<open>Runs and well-formed states\<close>

text \<open>
  The arrays have their declared sizes, and the fill level of the identifier table is an
  index into them.
\<close>

definition table_wf :: "globals \<Rightarrow> bool" where
  "table_wf s \<longleftrightarrow>
     0 \<le> uniqueIdCount s \<and> uniqueIdCount s \<le> MAX_UNIQUE_IDS \<and>
     length (seenIds s) = nat MAX_UNIQUE_IDS \<and> length (idCounts s) = nat MAX_UNIQUE_IDS \<and>
     length (lastData s) = nat MAX_UNIQUE_IDS \<and>
     (\<forall>k < nat MAX_UNIQUE_IDS. length (lastData s ! k) = 8)"

definition s_table_wf :: "serial_globals \<Rightarrow> bool" where
  "s_table_wf s \<longleftrightarrow>
     0 \<le> s_uniqueIdCount s \<and> s_uniqueIdCount s \<le> MAX_UNIQUE_IDS \<and>
     length (s_seenIds s) = nat MAX_UNIQUE_IDS \<and> length (s_idCounts s) = nat MAX_UNIQUE_IDS"

text \<open>A call of \<^verbatim>\<open>findOrAddId\<close> passes an 8 byte receive buffer and a length of at most 8.\<close>

definition call_ok :: "u32 \<times> u8 list \<times> u8 \<Rightarrow> bool" where
  "call_ok c = (case c of (cid, payload, len) \<Rightarrow> length payload = 8 \<and> unat len \<le> 8)"

text \<open>A sequence of \<^verbatim>\<open>findOrAddId\<close> calls, one after the other.\<close>

fun record_all :: "(u32 \<times> u8 list \<times> u8) list \<Rightarrow> globals \<Rightarrow> globals option" where
  "record_all [] s = Some s"
| "record_all ((cid, payload, len) # calls) s =
     (case findOrAddId cid payload len s of
        None \<Rightarrow> None
      | Some (i, s1) \<Rightarrow> record_all calls s1)"

fun s_record_all :: "u32 list \<Rightarrow> serial_globals \<Rightarrow> serial_globals" where
  "s_record_all [] s = s"
| "s_record_all (cid # calls) s = s_record_all calls (snd (s_findOrAddId cid s))"

text \<open>
  The invariant of the identifier table after the calls with the identifiers \<open>ids\<close>:
  the held identifiers are distinct and were all recorded, nothing recorded is missing
  while there is room, and each counter is the number of calls, as a 32 bit value.
\<close>

definition tbl_inv :: "u32 list \<Rightarrow> u32 list \<Rightarrow> ulong list \<Rightarrow> int \<Rightarrow> bool" where
  "tbl_inv ids seen counts n \<longleftrightarrow>
     0 \<le> n \<and> n \<le> MAX_UNIQUE_IDS \<and>
     length seen = nat MAX_UNIQUE_IDS \<and> length counts = nat MAX_UNIQUE_IDS \<and>
     distinct (take (nat n) seen) \<and> set (take (nat n) seen) \<subseteq> set ids \<and>
     (n < MAX_UNIQUE_IDS \<longrightarrow> set ids \<subseteq> set (take (nat n) seen)) \<and>
     (\<forall>i < nat n. counts ! i = of_nat (count_list ids (seen ! i)))"

text \<open>
  Example state for the identifier table: what the first call
  \<^verbatim>\<open>findOrAddId(0x100, {1,2,3,4,5,6,7,8}, 8)\<close> makes of the initial state.
\<close>

definition table_one_record :: globals where
  "table_one_record = init_globals\<lparr>seenIds := (seenIds init_globals)[0 := 0x100],
     idCounts := (idCounts init_globals)[0 := 1],
     lastData := (lastData init_globals)[0 := [1, 2, 3, 4, 5, 6, 7, 8]], uniqueIdCount := 1\<rparr>"

text \<open>
  The event log: its array has \<open>LOG_BUFFER_SIZE\<close> slots, head and fill level are
  indices into it, and every slot has its 8 data bytes and 40 text bytes.
\<close>

definition log_wf :: "globals \<Rightarrow> bool" where
  "log_wf s \<longleftrightarrow>
     length (logBuffer s) = nat LOG_BUFFER_SIZE \<and>
     0 \<le> logHead s \<and> logHead s < LOG_BUFFER_SIZE \<and>
     0 \<le> logCount s \<and> logCount s \<le> LOG_BUFFER_SIZE \<and>
     (\<forall>k < nat LOG_BUFFER_SIZE. length (data (logBuffer s ! k)) = 8 \<and>
        length (markText (logBuffer s ! k)) = 40)"

text \<open>
  What is appended to the log: a frame (\<^verbatim>\<open>addToLog\<close>) or an annotation
  (\<^verbatim>\<open>addMarkToLog\<close>), each with the clock value of the call.  A frame comes with the
  8 byte receive buffer.
\<close>

datatype log_event = Capture ulong u32 bool bool u8 "u8 list" | Mark ulong string

fun event_ok :: "log_event \<Rightarrow> bool" where
  "event_ok (Capture now cid ext rt len payload) = (length payload = 8)"
| "event_ok (Mark now text) = True"

fun log_append :: "log_event \<Rightarrow> globals \<Rightarrow> globals option" where
  "log_append (Capture now cid ext rt len payload) s = addToLog now cid ext rt len payload s"
| "log_append (Mark now text) s = Some (addMarkToLog now text s)"

fun appends :: "log_event list \<Rightarrow> globals \<Rightarrow> globals option" where
  "appends [] s = Some s"
| "appends (ev # evs) s =
     (case log_append ev s of None \<Rightarrow> None | Some s1 \<Rightarrow> appends evs s1)"

text \<open>
  Appends and resets (\<^verbatim>\<open>handleClear\<close>) in any order.  The run collects the sequence
  number that each append stores in the slot it writes.
\<close>

datatype log_op = Append log_event | Clear ulong

fun run_log :: "log_op list \<Rightarrow> globals \<Rightarrow> (u32 list \<times> globals) option" where
  "run_log [] s = Some ([], s)"
| "run_log (Append ev # ops) s =
     (case log_append ev s of
        None \<Rightarrow> None
      | Some s1 \<Rightarrow>
          (case run_log ops s1 of
             None \<Rightarrow> None
           | Some (sqs, s2) \<Rightarrow> Some (seq (logBuffer s1 ! nat (logHead s)) # sqs, s2)))"
| "run_log (Clear now # ops) s = run_log ops (handleClear now s)"

fun op_ok :: "log_op \<Rightarrow> bool" where
  "op_ok (Append ev) = event_ok ev"
| "op_ok (Clear now) = True"

fun appends_in :: "log_op list \<Rightarrow> nat" where
  "appends_in [] = 0"
| "appends_in (Append ev # ops) = Suc (appends_in ops)"
| "appends_in (Clear now # ops) = appends_in ops"

text \<open>
  What a reader of a slot sees (\<^verbatim>\<open>handleLog\<close> and \<^verbatim>\<open>handleCSV\<close> branch on
  \<^verbatim>\<open>isMark\<close> and print the text as a C string, or the frame fields), and what the
  append with sequence number \<open>sq\<close> is to show, for a log whose time base is \<open>start\<close>.
\<close>

datatype log_item =
  Frame_item ulong u32 u32 bool bool u8 "u8 list"
| Mark_item ulong u32 string

definition view :: "LogEntry \<Rightarrow> log_item" where
  "view e =
     (if isMark e then Mark_item (timestamp e) (seq e) (c_str (markText e))
      else Frame_item (timestamp e) (seq e) (can_id e) (extended e) (rtr e) (dlc e) (data e))"

fun item_of :: "ulong \<Rightarrow> u32 \<Rightarrow> log_event \<Rightarrow> log_item" where
  "item_of start sq (Capture now cid ext rt len payload) =
     Frame_item (now - start) sq cid ext rt len payload"
| "item_of start sq (Mark now text) = Mark_item (now - start) sq (take 39 (c_str text))"

definition items :: "ulong \<Rightarrow> u32 \<Rightarrow> log_event list \<Rightarrow> log_item list" where
  "items start sq evs =
     map (\<lambda>k. item_of start (sq + of_nat k) (evs ! k)) [0 ..< length evs]"

text \<open>
  The invariant of the ring buffer after the appends shown by \<open>its\<close> since the last
  reset: the fill level is capped, the head is the number of appends modulo the size, and
  the slot of each of the last \<open>LOG_BUFFER_SIZE\<close> appends shows that append.
\<close>

definition ring :: "log_item list \<Rightarrow> globals \<Rightarrow> bool" where
  "ring its s \<longleftrightarrow>
     log_wf s \<and>
     logCount s = int (min (length its) (nat LOG_BUFFER_SIZE)) \<and>
     logHead s = int (length its mod nat LOG_BUFFER_SIZE) \<and>
     (\<forall>k < length its. length its - k \<le> nat LOG_BUFFER_SIZE \<longrightarrow>
        view (logBuffer s ! (k mod nat LOG_BUFFER_SIZE)) = its ! k)"

text \<open>
  The score that the scan computes for one candidate (none when \<^verbatim>\<open>initCAN\<close> fails),
  and the part of the candidate loop that keeps the best score: \<open>select_best\<close> is that
  loop over the scores alone, used to state what the loops select.
\<close>

fun handleScan_score :: "trial_env \<Rightarrow> rat option" where
  "handleScan_score InitFails = None"
| "handleScan_score (InitOk scanStart passes) =
     (let t = scan_window handleScan_poll 3000 scanStart passes scan_reset
      in Some (score (scanMsgCount t) (scanUniqueIds t)))"


fun select_best :: "rat option list \<Rightarrow> int \<Rightarrow> int \<times> rat \<Rightarrow> int \<times> rat" where
  "select_best [] r best = best"
| "select_best (None # scs) r best = select_best scs (r + 1) best"
| "select_best (Some sc # scs) r (b, bs) =
     select_best scs (r + 1) (if sc > bs then (r, sc) else (b, bs))"




section \<open>Properties\<close>

lemma memcpy_Some: "n \<le> length dest \<Longrightarrow> n \<le> length src \<Longrightarrow>
    memcpy dest src n = Some (take n src @ drop n dest)"
  by (simp add: memcpy_def)

subsection \<open>The search loop\<close>

lemma find_loop_step:
  "i < n \<Longrightarrow> find_loop ids n cid i =
     (if ids ! nat i = cid then Some i else find_loop ids n cid (i + 1))"
  by (subst find_loop.simps) simp

lemma find_loop_stop: "\<not> i < n \<Longrightarrow> find_loop ids n cid i = None"
  by (subst find_loop.simps) simp

lemma find_loop_Some:
  "find_loop ids n cid i = Some j \<Longrightarrow> 0 \<le> i \<Longrightarrow> i \<le> j \<and> j < n \<and> ids ! nat j = cid"
proof (induction ids n cid i rule: find_loop.induct)
  case (1 ids n cid i)
  show ?case
  proof (cases "i < n")
    case False
    with "1.prems" show ?thesis by (simp add: find_loop_stop)
  next
    case True
    show ?thesis
    proof (cases "ids ! nat i = cid")
      case hit: True
      from "1.prems"(1) have "j = i"
        unfolding find_loop_step [OF True, of ids cid] using hit by simp
      with True hit show ?thesis by simp
    next
      case miss: False
      from "1.prems"(1) have rec: "find_loop ids n cid (i + 1) = Some j"
        unfolding find_loop_step [OF True, of ids cid] using miss by simp
      from "1.IH" [OF True miss rec] "1.prems"(2) show ?thesis by simp
    qed
  qed
qed

lemma find_loop_None:
  "find_loop ids n cid i = None \<Longrightarrow> 0 \<le> i \<Longrightarrow> i \<le> k \<Longrightarrow> k < n \<Longrightarrow> ids ! nat k \<noteq> cid"
proof (induction ids n cid i rule: find_loop.induct)
  case (1 ids n cid i)
  from "1.prems" have True: "i < n" by simp
  from "1.prems"(1) have miss: "ids ! nat i \<noteq> cid" and rec: "find_loop ids n cid (i + 1) = None"
    unfolding find_loop_step [OF True, of ids cid] by (auto split: if_splits)
  from "1.prems" consider "k = i" | "i + 1 \<le> k" by linarith
  then show ?case
  proof cases
    case 1
    with miss show ?thesis by simp
  next
    case 2
    with "1.IH" [OF True miss rec] "1.prems" show ?thesis by simp
  qed
qed

lemma nth_in_take: "j < m \<Longrightarrow> m \<le> length xs \<Longrightarrow> xs ! j \<in> set (take m xs)"
proof -
  assume j: "j < m" and m: "m \<le> length xs"
  then have "j < length (take m xs)" by simp
  then have "take m xs ! j \<in> set (take m xs)" by (rule nth_mem)
  with j show ?thesis by simp
qed

lemma find_loop_in_set:
  assumes "0 \<le> n" "nat n \<le> length ids"
  shows "(find_loop ids n cid 0 = None) = (cid \<notin> set (take (nat n) ids))"
proof
  assume none: "find_loop ids n cid 0 = None"
  show "cid \<notin> set (take (nat n) ids)"
  proof
    assume "cid \<in> set (take (nat n) ids)"
    then obtain k where k: "k < length (take (nat n) ids)" "take (nat n) ids ! k = cid"
      by (auto simp: in_set_conv_nth)
    then have "int k < n" "ids ! nat (int k) = cid" by auto
    with find_loop_None [OF none, of "int k"] show False by simp
  qed
next
  assume notin: "cid \<notin> set (take (nat n) ids)"
  show "find_loop ids n cid 0 = None"
  proof (cases "find_loop ids n cid 0")
    case None then show ?thesis .
  next
    case (Some j)
    from find_loop_Some [OF Some] have j: "0 \<le> j" "j < n" "ids ! nat j = cid" by auto
    then have "nat j < nat n" by simp
    from nth_in_take [OF this assms(2)] j notin show ?thesis by simp
  qed
qed


lemma take_nth_distinct:
  assumes "distinct (take m xs)" "a < m" "j < m" "m \<le> length xs" "xs ! j = xs ! a"
  shows "j = a"
proof -
  have eq: "take m xs ! j = take m xs ! a" using assms by simp
  have lj: "j < length (take m xs)" and la: "a < length (take m xs)" using assms by simp_all
  from nth_eq_iff_index_eq [OF assms(1) lj la] eq show ?thesis by simp
qed

lemma tbl_inv_hit:
  assumes inv: "tbl_inv ids seen counts n" and hit: "find_loop seen n cid 0 = Some i"
  shows "tbl_inv (ids @ [cid]) seen (counts[nat i := counts ! nat i + 1]) n"
proof -
  from find_loop_Some [OF hit] have i: "0 \<le> i" "i < n" "seen ! nat i = cid" by simp_all
  from inv have n: "0 \<le> n" "n \<le> MAX_UNIQUE_IDS" and len: "length seen = nat MAX_UNIQUE_IDS"
      "length counts = nat MAX_UNIQUE_IDS" and dist: "distinct (take (nat n) seen)"
    and sub: "set (take (nat n) seen) \<subseteq> set ids"
    and all: "n < MAX_UNIQUE_IDS \<longrightarrow> set ids \<subseteq> set (take (nat n) seen)"
    and cnt: "\<forall>j < nat n. counts ! j = of_nat (count_list ids (seen ! j))"
    by (simp_all add: tbl_inv_def)
  have a: "nat i < nat n" "nat n \<le> length seen" "nat n \<le> length counts" using i n len by simp_all
  have mem: "cid \<in> set (take (nat n) seen)"
    using nth_in_take [OF a(1) a(2)] i by simp
  have cnt': "(counts[nat i := counts ! nat i + 1]) ! j = of_nat (count_list (ids @ [cid]) (seen ! j))"
    if j: "j < nat n" for j
  proof (cases "j = nat i")
    case True
    then show ?thesis using cnt a i by simp
  next
    case False
    then have "seen ! j \<noteq> seen ! nat i"
      using take_nth_distinct [OF dist a(1) j a(2)] by blast
    then show ?thesis using False cnt j i by simp
  qed
  show ?thesis
    unfolding tbl_inv_def using n len dist sub all mem cnt' by auto
qed

lemma tbl_inv_add:
  assumes inv: "tbl_inv ids seen counts n" and miss: "find_loop seen n cid 0 = None"
    and room: "n < MAX_UNIQUE_IDS"
  shows "tbl_inv (ids @ [cid]) (seen[nat n := cid]) (counts[nat n := 1]) (n + 1)"
proof -
  from inv have n: "0 \<le> n" "n \<le> MAX_UNIQUE_IDS" and len: "length seen = nat MAX_UNIQUE_IDS"
      "length counts = nat MAX_UNIQUE_IDS" and dist: "distinct (take (nat n) seen)"
    and sub: "set (take (nat n) seen) \<subseteq> set ids"
    and all: "n < MAX_UNIQUE_IDS \<longrightarrow> set ids \<subseteq> set (take (nat n) seen)"
    and cnt: "\<forall>j < nat n. counts ! j = of_nat (count_list ids (seen ! j))"
    by (simp_all add: tbl_inv_def)
  have a: "nat n < length seen" "nat n < length counts" using n len room by simp_all
  have notin: "cid \<notin> set (take (nat n) seen)"
    using miss find_loop_in_set [of n seen cid] n a by simp
  with all room have fresh: "cid \<notin> set ids" by auto
  have tk: "take (nat (n + 1)) (seen[nat n := cid]) = take (nat n) seen @ [cid]"
  proof -
    have "nat (n + 1) = Suc (nat n)" using n by simp
    then show ?thesis using a by (simp add: take_Suc_conv_app_nth)
  qed
  have cnt': "(counts[nat n := 1]) ! j = of_nat (count_list (ids @ [cid]) ((seen[nat n := cid]) ! j))"
    if j: "j < nat (n + 1)" for j
  proof (cases "j = nat n")
    case True
    then show ?thesis using a fresh by (simp add: count_list_0_iff)
  next
    case False
    with j n have jn: "j < nat n" by linarith
    then have "seen ! j \<in> set (take (nat n) seen)"
      using a by (intro nth_in_take) simp_all
    with notin have "seen ! j \<noteq> cid" by auto
    then show ?thesis using False cnt jn by simp
  qed
  show ?thesis
    unfolding tbl_inv_def tk using n len dist sub all notin cnt' room by auto
qed

lemma tbl_inv_full:
  assumes inv: "tbl_inv ids seen counts n" and miss: "find_loop seen n cid 0 = None"
    and full: "\<not> n < MAX_UNIQUE_IDS"
  shows "tbl_inv (ids @ [cid]) seen counts n"
proof -
  from inv have n: "0 \<le> n" "n \<le> MAX_UNIQUE_IDS" and len: "length seen = nat MAX_UNIQUE_IDS"
      "length counts = nat MAX_UNIQUE_IDS" and dist: "distinct (take (nat n) seen)"
    and sub: "set (take (nat n) seen) \<subseteq> set ids"
    and cnt: "\<forall>j < nat n. counts ! j = of_nat (count_list ids (seen ! j))"
    by (simp_all add: tbl_inv_def)
  have notin: "cid \<notin> set (take (nat n) seen)"
    using miss find_loop_in_set [of n seen cid] n len by simp
  have cnt': "counts ! j = of_nat (count_list (ids @ [cid]) (seen ! j))" if j: "j < nat n" for j
  proof -
    have "seen ! j \<in> set (take (nat n) seen)"
      using j n len by (intro nth_in_take) simp_all
    with notin have "seen ! j \<noteq> cid" by auto
    then show ?thesis using cnt j by simp
  qed
  show ?thesis
    unfolding tbl_inv_def using n len dist sub full cnt' by auto
qed

subsection \<open>The identifier table keeps its invariant\<close>

lemma memcpy_length:
  "memcpy dest src n = Some row \<Longrightarrow> length row = length dest"
  by (auto simp: memcpy_def split: if_splits)

lemma table_wf_row: "table_wf s \<Longrightarrow> k < nat MAX_UNIQUE_IDS \<Longrightarrow> length (lastData s ! k) = 8"
  by (simp add: table_wf_def)

lemma rows_update:
  assumes "\<forall>k < m. length (rows ! k) = (8::nat)" "length r = 8" "m \<le> length rows"
  shows "\<forall>k < m. length (rows[j := r] ! k) = 8"
proof (intro allI impI)
  fix k assume k: "k < m"
  show "length (rows[j := r] ! k) = 8"
  proof (cases "k = j")
    case True
    with k assms(3) have "rows[j := r] ! k = r" by simp
    with assms(2) show ?thesis by simp
  next
    case False
    then have "rows[j := r] ! k = rows ! k" by simp
    with assms(1) k show ?thesis by simp
  qed
qed

lemma table_wf_rows:
  "table_wf s \<Longrightarrow> length r = 8 \<Longrightarrow>
   \<forall>k < nat MAX_UNIQUE_IDS. length ((lastData s)[j := r] ! k) = 8"
  by (rule rows_update) (simp_all add: table_wf_def)

lemma findOrAddId_inv:
  assumes wf: "table_wf s"
    and inv: "tbl_inv ids (seenIds s) (idCounts s) (uniqueIdCount s)"
    and ok: "length payload = 8" "unat len \<le> 8"
  shows "\<exists>i s'. findOrAddId cid payload len s = Some (i, s') \<and> table_wf s' \<and>
           tbl_inv (ids @ [cid]) (seenIds s') (idCounts s') (uniqueIdCount s')"
proof (cases "find_loop (seenIds s) (uniqueIdCount s) cid 0")
  case (Some i)
  from find_loop_Some [OF Some] wf have i: "nat i < nat MAX_UNIQUE_IDS"
    by (simp add: table_wf_def)
  from table_wf_row [OF wf i] ok
  have cp: "memcpy (lastData s ! nat i) payload (unat len)
      = Some (take (unat len) payload @ drop (unat len) (lastData s ! nat i))"
    by (simp add: memcpy_def)
  have len: "length (take (unat len) payload @ drop (unat len) (lastData s ! nat i)) = 8"
    using table_wf_row [OF wf i] ok by simp
  from wf table_wf_rows [OF wf len, of "nat i"] have wf': "table_wf (s\<lparr>idCounts := (idCounts s)[nat i := idCounts s ! nat i + 1],
      lastData := (lastData s)[nat i := take (unat len) payload @ drop (unat len) (lastData s ! nat i)]\<rparr>)"
    by (simp add: table_wf_def del: length_append length_take length_drop)
  from tbl_inv_hit [OF inv Some] wf' show ?thesis
    by (simp add: findOrAddId_def Some cp)
next
  case None
  show ?thesis
  proof (cases "uniqueIdCount s < MAX_UNIQUE_IDS")
    case True
    with wf have i: "nat (uniqueIdCount s) < nat MAX_UNIQUE_IDS"
      by (simp add: table_wf_def)
    let ?k = "nat (uniqueIdCount s)"
      from table_wf_row [OF wf i] ok
    have cp: "memcpy (lastData s ! ?k) payload (unat len)
        = Some (take (unat len) payload @ drop (unat len) (lastData s ! ?k))"
      by (simp add: memcpy_def)
    have len: "length (take (unat len) payload @ drop (unat len) (lastData s ! ?k)) = 8"
      using table_wf_row [OF wf i] ok by simp
    from wf True table_wf_rows [OF wf len, of ?k]
    have wf': "table_wf (s\<lparr>seenIds := (seenIds s)[?k := cid],
        idCounts := (idCounts s)[?k := 1],
        lastData := (lastData s)[?k := take (unat len) payload @ drop (unat len) (lastData s ! ?k)],
        uniqueIdCount := uniqueIdCount s + 1\<rparr>)"
      by (simp add: table_wf_def del: length_append length_take length_drop)
    from tbl_inv_add [OF inv None True] wf' show ?thesis
      by (simp add: findOrAddId_def None True cp)
  next
    case False
    from tbl_inv_full [OF inv None False] wf show ?thesis
      by (simp add: findOrAddId_def None False)
  qed
qed

lemma record_all_inv:
  "table_wf s \<Longrightarrow> tbl_inv ids (seenIds s) (idCounts s) (uniqueIdCount s) \<Longrightarrow>
   \<forall>c \<in> set calls. call_ok c \<Longrightarrow>
   \<exists>s'. record_all calls s = Some s' \<and> table_wf s' \<and>
        tbl_inv (ids @ map fst calls) (seenIds s') (idCounts s') (uniqueIdCount s')"
proof (induction calls arbitrary: s ids)
  case Nil
  then show ?case by simp
next
  case (Cons c calls)
  obtain cid payload len where c: "c = (cid, payload, len)" by (cases c)
  with Cons.prems(3) have ok: "length payload = 8" "unat len \<le> 8"
    by (simp_all add: call_ok_def)
  from findOrAddId_inv [OF Cons.prems(1,2) ok, of cid]
  obtain i s1 where step: "findOrAddId cid payload len s = Some (i, s1)"
    and wf1: "table_wf s1"
    and inv1: "tbl_inv (ids @ [cid]) (seenIds s1) (idCounts s1) (uniqueIdCount s1)"
    by blast
  from Cons.prems(3) have rest: "\<forall>c \<in> set calls. call_ok c" by simp
  from Cons.IH [OF wf1 inv1 rest] show ?case
    by (simp add: c step)
qed

lemma tbl_inv_empty:
  "length seen = nat MAX_UNIQUE_IDS \<Longrightarrow> length counts = nat MAX_UNIQUE_IDS \<Longrightarrow>
   tbl_inv [] seen counts 0"
  by (simp add: tbl_inv_def MAX_UNIQUE_IDS_def)

lemma s_findOrAddId_inv:
  assumes wf: "s_table_wf s"
    and inv: "tbl_inv ids (s_seenIds s) (s_idCounts s) (s_uniqueIdCount s)"
  shows "s_table_wf (snd (s_findOrAddId cid s)) \<and>
         tbl_inv (ids @ [cid]) (s_seenIds (snd (s_findOrAddId cid s)))
           (s_idCounts (snd (s_findOrAddId cid s))) (s_uniqueIdCount (snd (s_findOrAddId cid s)))"
proof (cases "find_loop (s_seenIds s) (s_uniqueIdCount s) cid 0")
  case (Some i)
  from tbl_inv_hit [OF inv Some] wf show ?thesis
    by (simp add: s_findOrAddId_def Some s_table_wf_def)
next
  case None
  show ?thesis
  proof (cases "s_uniqueIdCount s < MAX_UNIQUE_IDS")
    case True
    from tbl_inv_add [OF inv None True] wf True show ?thesis
      by (simp add: s_findOrAddId_def None s_table_wf_def)
  next
    case False
    from tbl_inv_full [OF inv None False] wf show ?thesis
      by (simp add: s_findOrAddId_def None False)
  qed
qed

lemma s_record_all_inv:
  "s_table_wf s \<Longrightarrow> tbl_inv ids (s_seenIds s) (s_idCounts s) (s_uniqueIdCount s) \<Longrightarrow>
   s_table_wf (s_record_all cids s) \<and>
   tbl_inv (ids @ cids) (s_seenIds (s_record_all cids s)) (s_idCounts (s_record_all cids s))
     (s_uniqueIdCount (s_record_all cids s))"
proof (induction cids arbitrary: s ids)
  case Nil
  then show ?case by simp
next
  case (Cons cid cids)
  from s_findOrAddId_inv [OF Cons.prems, of cid]
  have "s_table_wf (snd (s_findOrAddId cid s))"
    and "tbl_inv (ids @ [cid]) (s_seenIds (snd (s_findOrAddId cid s)))
           (s_idCounts (snd (s_findOrAddId cid s))) (s_uniqueIdCount (snd (s_findOrAddId cid s)))"
    by simp_all
  from Cons.IH [OF this] show ?case by simp
qed

lemma tbl_inv_counts:
  assumes "tbl_inv ids seen counts n" "i < nat n"
  shows "unat (counts ! i) = count_list ids (seen ! i) mod 2 ^ 32"
proof -
  from assms have "counts ! i = of_nat (count_list ids (seen ! i))"
    by (simp add: tbl_inv_def)
  then show ?thesis by (simp add: unat_of_nat)
qed

lemma findOrAddId_full:
  assumes wf: "table_wf s" and full: "uniqueIdCount s = MAX_UNIQUE_IDS"
    and new: "cid \<notin> set (take (nat (uniqueIdCount s)) (seenIds s))"
  shows "findOrAddId cid payload len s = Some (- 1, s)"
proof -
  from wf have "0 \<le> uniqueIdCount s" "nat (uniqueIdCount s) \<le> length (seenIds s)"
    by (auto simp: table_wf_def intro: nat_mono)
  from find_loop_in_set [OF this, of cid] new
  have "find_loop (seenIds s) (uniqueIdCount s) cid 0 = None" by simp
  with full show ?thesis by (simp add: findOrAddId_def)
qed

lemma s_findOrAddId_full:
  assumes wf: "s_table_wf s" and full: "s_uniqueIdCount s = MAX_UNIQUE_IDS"
    and new: "cid \<notin> set (take (nat (s_uniqueIdCount s)) (s_seenIds s))"
  shows "s_findOrAddId cid s = (- 1, s)"
proof -
  from wf have "0 \<le> s_uniqueIdCount s" "nat (s_uniqueIdCount s) \<le> length (s_seenIds s)"
    by (auto simp: s_table_wf_def intro: nat_mono)
  from find_loop_in_set [OF this, of cid] new
  have "find_loop (s_seenIds s) (s_uniqueIdCount s) cid 0 = None" by simp
  with full show ?thesis by (simp add: s_findOrAddId_def)
qed

subsection \<open>C1: bounded table, counts per identifier\<close>

text \<open>
  Claim C1, as the code has it.  Start from a table that was just reset (fill level 0)
  and run any sequence of calls of \<^verbatim>\<open>findOrAddId\<close>, each with an 8 byte buffer and a
  length of at most 8.  Every call returns, the table never holds more than
  \<open>MAX_UNIQUE_IDS = 256\<close> records, the held identifiers are distinct, and the counter of
  every held identifier is the number of calls with that identifier since the reset,
  modulo \<open>2 ^ 32\<close>: the counters are \<^verbatim>\<open>unsigned long\<close>, 32 bits on the ESP32, so the
  count is exact as long as it is below \<open>2 ^ 32\<close>.  In the state reached, a call with an
  identifier that is not held while the table is full returns \<open>-1\<close> and changes nothing.
  The same holds for the serial variant's \<^verbatim>\<open>findOrAddId\<close>.
\<close>

theorem identifier_table_counts:
  assumes "table_wf s0" "uniqueIdCount s0 = 0" "\<forall>c \<in> set calls. call_ok c"
    and "s_table_wf t0" "s_uniqueIdCount t0 = 0"
  shows "(\<exists>s. record_all calls s0 = Some s \<and>
            0 \<le> uniqueIdCount s \<and> uniqueIdCount s \<le> MAX_UNIQUE_IDS \<and>
            distinct (take (nat (uniqueIdCount s)) (seenIds s)) \<and>
            (\<forall>i < nat (uniqueIdCount s).
               unat (idCounts s ! i) = count_list (map fst calls) (seenIds s ! i) mod 2 ^ 32) \<and>
            (\<forall>cid payload len.
               uniqueIdCount s = MAX_UNIQUE_IDS \<and>
               cid \<notin> set (take (nat (uniqueIdCount s)) (seenIds s)) \<longrightarrow>
               findOrAddId cid payload len s = Some (- 1, s))) \<and>
         (let t = s_record_all (map fst calls) t0 in
            0 \<le> s_uniqueIdCount t \<and> s_uniqueIdCount t \<le> MAX_UNIQUE_IDS \<and>
            distinct (take (nat (s_uniqueIdCount t)) (s_seenIds t)) \<and>
            (\<forall>i < nat (s_uniqueIdCount t).
               unat (s_idCounts t ! i) = count_list (map fst calls) (s_seenIds t ! i) mod 2 ^ 32) \<and>
            (\<forall>cid.
               s_uniqueIdCount t = MAX_UNIQUE_IDS \<and>
               cid \<notin> set (take (nat (s_uniqueIdCount t)) (s_seenIds t)) \<longrightarrow>
               s_findOrAddId cid t = (- 1, t)))"
proof (rule conjI)
  from assms(1,2) have "tbl_inv [] (seenIds s0) (idCounts s0) (uniqueIdCount s0)"
    by (simp add: tbl_inv_empty table_wf_def)
  from record_all_inv [OF assms(1) this assms(3)]
  obtain s where run: "record_all calls s0 = Some s" and wf: "table_wf s"
    and inv: "tbl_inv (map fst calls) (seenIds s) (idCounts s) (uniqueIdCount s)"
    by auto
  from inv have "0 \<le> uniqueIdCount s" "uniqueIdCount s \<le> MAX_UNIQUE_IDS"
    "distinct (take (nat (uniqueIdCount s)) (seenIds s))"
    by (simp_all add: tbl_inv_def)
  with run tbl_inv_counts [OF inv] findOrAddId_full [OF wf]
  show "\<exists>s. record_all calls s0 = Some s \<and>
            0 \<le> uniqueIdCount s \<and> uniqueIdCount s \<le> MAX_UNIQUE_IDS \<and>
            distinct (take (nat (uniqueIdCount s)) (seenIds s)) \<and>
            (\<forall>i < nat (uniqueIdCount s).
               unat (idCounts s ! i) = count_list (map fst calls) (seenIds s ! i) mod 2 ^ 32) \<and>
            (\<forall>cid payload len.
               uniqueIdCount s = MAX_UNIQUE_IDS \<and>
               cid \<notin> set (take (nat (uniqueIdCount s)) (seenIds s)) \<longrightarrow>
               findOrAddId cid payload len s = Some (- 1, s))"
    by blast
next
  let ?t = "s_record_all (map fst calls) t0"
  from assms(4,5) have "tbl_inv [] (s_seenIds t0) (s_idCounts t0) (s_uniqueIdCount t0)"
    by (simp add: tbl_inv_empty s_table_wf_def)
  from s_record_all_inv [OF assms(4) this, of "map fst calls"]
  have wf: "s_table_wf ?t"
    and inv: "tbl_inv (map fst calls) (s_seenIds ?t) (s_idCounts ?t) (s_uniqueIdCount ?t)"
    by simp_all
  from inv have "0 \<le> s_uniqueIdCount ?t" "s_uniqueIdCount ?t \<le> MAX_UNIQUE_IDS"
    "distinct (take (nat (s_uniqueIdCount ?t)) (s_seenIds ?t))"
    by (simp_all add: tbl_inv_def)
  with tbl_inv_counts [OF inv] s_findOrAddId_full [OF wf]
  show "let t = s_record_all (map fst calls) t0 in
            0 \<le> s_uniqueIdCount t \<and> s_uniqueIdCount t \<le> MAX_UNIQUE_IDS \<and>
            distinct (take (nat (s_uniqueIdCount t)) (s_seenIds t)) \<and>
            (\<forall>i < nat (s_uniqueIdCount t).
               unat (s_idCounts t ! i) = count_list (map fst calls) (s_seenIds t ! i) mod 2 ^ 32) \<and>
            (\<forall>cid.
               s_uniqueIdCount t = MAX_UNIQUE_IDS \<and>
               cid \<notin> set (take (nat (s_uniqueIdCount t)) (s_seenIds t)) \<longrightarrow>
               s_findOrAddId cid t = (- 1, t))"
    unfolding Let_def by blast
qed

lemma table_wf_init: "table_wf init_globals"
  by (simp add: table_wf_def init_globals_def MAX_UNIQUE_IDS_def)

lemma s_table_wf_init: "s_table_wf init_serial"
  by (simp add: s_table_wf_def init_serial_def MAX_UNIQUE_IDS_def)

theorem identifier_table_counts_witness:
  "table_wf init_globals \<and> uniqueIdCount init_globals = 0 \<and>
   call_ok (0x100, [1, 2, 3, 4, 5, 6, 7, 8], 8) \<and> call_ok (0x200, [9, 9, 9, 9, 9, 9, 9, 9], 2) \<and>
   s_table_wf init_serial \<and> s_uniqueIdCount init_serial = 0 \<and>
   (\<exists>s. record_all [(0x100, [1, 2, 3, 4, 5, 6, 7, 8], 8), (0x200, [9, 9, 9, 9, 9, 9, 9, 9], 2),
                     (0x100, [1, 2, 3, 4, 5, 6, 7, 8], 8)] init_globals = Some s \<and>
        0 \<le> uniqueIdCount s \<and> uniqueIdCount s \<le> MAX_UNIQUE_IDS \<and>
        distinct (take (nat (uniqueIdCount s)) (seenIds s)) \<and>
        (\<forall>i < nat (uniqueIdCount s).
           unat (idCounts s ! i) =
           count_list (map fst [(0x100, [1, 2, 3, 4, 5, 6, 7, 8], 8),
             (0x200, [9, 9, 9, 9, 9, 9, 9, 9], 2), (0x100, [1, 2, 3, 4, 5, 6, 7, 8 :: u8], 8 :: u8)])
             (seenIds s ! i) mod 2 ^ 32) \<and>
        (\<forall>cid payload len.
           uniqueIdCount s = MAX_UNIQUE_IDS \<and>
           cid \<notin> set (take (nat (uniqueIdCount s)) (seenIds s)) \<longrightarrow>
           findOrAddId cid payload len s = Some (- 1, s)))"
proof -
  have ok: "call_ok (0x100, [1, 2, 3, 4, 5, 6, 7, 8], 8)" "call_ok (0x200, [9, 9, 9, 9, 9, 9, 9, 9], 2)"
    by (simp_all add: call_ok_def)
  then have c: "\<forall>c \<in> set [(0x100, [1, 2, 3, 4, 5, 6, 7, 8], 8), (0x200, [9, 9, 9, 9, 9, 9, 9, 9], 2),
      (0x100, [1, 2, 3, 4, 5, 6, 7, 8], 8)]. call_ok c"
    by simp
  have i: "uniqueIdCount init_globals = 0" "s_uniqueIdCount init_serial = 0"
    by (simp_all add: init_globals_def init_serial_def)
  note run = identifier_table_counts [OF table_wf_init i(1) c s_table_wf_init i(2), THEN conjunct1]
  from table_wf_init i ok s_table_wf_init run show ?thesis by (intro conjI)
qed

lemma count_list_replicate_same: "count_list (replicate n x) x = n"
  by (induction n) simp_all

lemma distinct_single: "distinct xs \<Longrightarrow> set xs \<subseteq> {a} \<Longrightarrow> length xs \<le> 1"
proof -
  assume d: "distinct xs" and s: "set xs \<subseteq> {a}"
  from d have "length xs = card (set xs)" by (simp add: distinct_card)
  also from s have "\<dots> \<le> card {a}" by (intro card_mono) simp_all
  finally show ?thesis by simp
qed

text \<open>
  The claim as the specification words it asks for the exact number of calls.  Recording
  the identifier \<open>0x123\<close> \<open>2 ^ 32\<close> times from the initial state leaves one record,
  whose counter has wrapped around to 0.
\<close>

theorem identifier_table_counts_counterexample:
  "\<exists>s. record_all (replicate (2 ^ 32) (0x123, replicate 8 0, 0)) init_globals = Some s \<and>
       uniqueIdCount s = 1 \<and> seenIds s ! 0 = 0x123 \<and> idCounts s ! 0 = 0 \<and>
       count_list (map fst (replicate (2 ^ 32) (0x123 :: u32, replicate 8 (0 :: u8), 0 :: u8)))
         (seenIds s ! 0) = 2 ^ 32 \<and>
       unat (idCounts s ! 0) \<noteq>
         count_list (map fst (replicate (2 ^ 32) (0x123 :: u32, replicate 8 (0 :: u8), 0 :: u8)))
           (seenIds s ! 0)"
proof -
  let ?calls = "replicate (2 ^ 32) (0x123 :: u32, replicate 8 (0 :: u8), 0 :: u8)"
  have ids: "map fst ?calls = replicate (2 ^ 32) 0x123" by simp
  have ok: "\<forall>c \<in> set ?calls. call_ok c" by (simp add: call_ok_def)
  have "tbl_inv [] (seenIds init_globals) (idCounts init_globals) (uniqueIdCount init_globals)"
    by (simp add: tbl_inv_empty init_globals_def)
  from record_all_inv [OF table_wf_init this ok]
  obtain s where run: "record_all ?calls init_globals = Some s"
    and inv: "tbl_inv (replicate (2 ^ 32) 0x123) (seenIds s) (idCounts s) (uniqueIdCount s)"
    unfolding ids by auto
  let ?n = "uniqueIdCount s"
  from inv have n: "0 \<le> ?n" "?n \<le> MAX_UNIQUE_IDS" and len: "length (seenIds s) = nat MAX_UNIQUE_IDS"
    and dist: "distinct (take (nat ?n) (seenIds s))"
    and sub: "set (take (nat ?n) (seenIds s)) \<subseteq> set (replicate (2 ^ 32) 0x123)"
    and all: "?n < MAX_UNIQUE_IDS \<longrightarrow> set (replicate (2 ^ 32) 0x123) \<subseteq> set (take (nat ?n) (seenIds s))"
    and cnt: "\<forall>j < nat ?n. idCounts s ! j = of_nat (count_list (replicate (2 ^ 32) 0x123) (seenIds s ! j))"
    by (simp_all add: tbl_inv_def)
  have set_rep: "set (replicate (2 ^ 32) (0x123 :: u32)) = {0x123}" by simp
  from distinct_single [OF dist] sub have "length (take (nat ?n) (seenIds s)) \<le> 1"
    unfolding set_rep by simp
  with n len have le1: "?n \<le> 1" by (simp add: MAX_UNIQUE_IDS_def)
  then have "?n < MAX_UNIQUE_IDS" by (simp add: MAX_UNIQUE_IDS_def)
  with all have mem: "0x123 \<in> set (take (nat ?n) (seenIds s))" unfolding set_rep by simp
  then have "nat ?n \<noteq> 0" by auto
  with le1 n have n1: "?n = 1" by simp
  with mem len have first: "seenIds s ! 0 = 0x123"
    by (cases "seenIds s") (simp_all add: MAX_UNIQUE_IDS_def)
  have count: "count_list (replicate (2 ^ 32) (0x123 :: u32)) 0x123 = 2 ^ 32"
    by (simp add: count_list_replicate_same)
  from cnt n1 first count have zero: "idCounts s ! 0 = 0" by simp
  show ?thesis
    using run n1 first zero count unfolding ids by (intro exI [of _ s]) simp
qed

subsection \<open>C9: a matching record call overwrites the first \<open>dlc\<close> bytes only\<close>

text \<open>
  Claim C9.  When the identifier is held and the length \<open>len\<close> is at most 8, the call
  returns the index \<open>i\<close> of the record; afterwards the first \<open>len\<close> bytes of
  \<^verbatim>\<open>lastData[i]\<close> are those of the payload, the bytes from \<open>len\<close> to 7 are what
  they were, and no other row has changed.
\<close>

theorem findOrAddId_partial_overwrite:
  assumes wf: "table_wf s"
    and held: "cid \<in> set (take (nat (uniqueIdCount s)) (seenIds s))"
    and ok: "length payload = 8" "unat len \<le> 8"
  shows "\<exists>i s'. findOrAddId cid payload len s = Some (i, s') \<and>
           0 \<le> i \<and> i < uniqueIdCount s \<and> seenIds s ! nat i = cid \<and>
           length (lastData s' ! nat i) = 8 \<and>
           (\<forall>k < unat len. lastData s' ! nat i ! k = payload ! k) \<and>
           (\<forall>k. unat len \<le> k \<and> k < 8 \<longrightarrow> lastData s' ! nat i ! k = lastData s ! nat i ! k) \<and>
           (\<forall>j < nat MAX_UNIQUE_IDS. j \<noteq> nat i \<longrightarrow> lastData s' ! j = lastData s ! j)"
proof -
  from wf have n: "0 \<le> uniqueIdCount s" "nat (uniqueIdCount s) \<le> length (seenIds s)"
    by (auto simp: table_wf_def intro: nat_mono)
  from find_loop_in_set [OF n, of cid] held
  obtain i where hit: "find_loop (seenIds s) (uniqueIdCount s) cid 0 = Some i"
    by (cases "find_loop (seenIds s) (uniqueIdCount s) cid 0") auto
  from find_loop_Some [OF hit] have i: "0 \<le> i" "i < uniqueIdCount s" "seenIds s ! nat i = cid"
    by simp_all
  with wf have k: "nat i < nat MAX_UNIQUE_IDS" "nat i < length (lastData s)"
    by (simp_all add: table_wf_def)
  let ?row = "take (unat len) payload @ drop (unat len) (lastData s ! nat i)"
  let ?s' = "s\<lparr>idCounts := (idCounts s)[nat i := idCounts s ! nat i + 1],
      lastData := (lastData s)[nat i := ?row]\<rparr>"
  have old: "length (lastData s ! nat i) = 8" by (rule table_wf_row [OF wf k(1)])
  with ok have cp: "memcpy (lastData s ! nat i) payload (unat len) = Some ?row"
    by (simp add: memcpy_def)
  have run: "findOrAddId cid payload len s = Some (i, ?s')"
    by (simp add: findOrAddId_def hit cp)
  have row: "lastData ?s' ! nat i = ?row" using k by simp
  have l: "length (lastData ?s' ! nat i) = 8" unfolding row using old ok by simp
  have lo: "lastData ?s' ! nat i ! k = payload ! k" if "k < unat len" for k
    unfolding row using that ok by (simp add: nth_append)
  have hi: "lastData ?s' ! nat i ! k = lastData s ! nat i ! k" if "unat len \<le> k \<and> k < 8" for k
    unfolding row using that ok old by (simp add: nth_append)
  have others: "lastData ?s' ! j = lastData s ! j" if "j \<noteq> nat i" for j
    using that by simp
  from run i l lo hi others show ?thesis by blast
qed

lemma table_one_record_reached:
  "findOrAddId 0x100 [1, 2, 3, 4, 5, 6, 7, 8] 8 init_globals = Some (0, table_one_record)"
  by (simp add: findOrAddId_def table_one_record_def init_globals_def find_loop_stop memcpy_def
      MAX_UNIQUE_IDS_def)

lemma table_one_record_wf: "table_wf table_one_record"
  by (simp add: table_wf_def table_one_record_def init_globals_def MAX_UNIQUE_IDS_def
      nth_list_update)

lemma table_one_record_held:
  "0x100 \<in> set (take (nat (uniqueIdCount table_one_record)) (seenIds table_one_record))"
  by (simp add: table_one_record_def init_globals_def MAX_UNIQUE_IDS_def take_Suc_conv_app_nth)

theorem findOrAddId_partial_overwrite_witness:
  "table_wf table_one_record \<and>
   0x100 \<in> set (take (nat (uniqueIdCount table_one_record)) (seenIds table_one_record)) \<and>
   length [9, 9, 9, 9, 9, 9, 9, 9 :: u8] = 8 \<and> unat (3 :: u8) \<le> 8 \<and>
   (\<exists>s'. findOrAddId 0x100 [9, 9, 9, 9, 9, 9, 9, 9] 3 table_one_record = Some (0, s') \<and>
         lastData s' ! 0 = [9, 9, 9, 4, 5, 6, 7, 8])"
proof -
  from findOrAddId_partial_overwrite [OF table_one_record_wf table_one_record_held,
      of "[9, 9, 9, 9, 9, 9, 9, 9]" 3]
  obtain i s' where run: "findOrAddId 0x100 [9, 9, 9, 9, 9, 9, 9, 9] 3 table_one_record = Some (i, s')"
    and i: "0 \<le> i" "i < uniqueIdCount table_one_record"
    and l: "length (lastData s' ! nat i) = 8"
    and lo: "\<forall>k < 3. lastData s' ! nat i ! k = [9, 9, 9, 9, 9, 9, 9, 9] ! k"
    and hi: "\<forall>k. 3 \<le> k \<and> k < 8 \<longrightarrow> lastData s' ! nat i ! k = lastData table_one_record ! nat i ! k"
    by auto
  from i have i0: "i = 0" by (simp add: table_one_record_def)
  have old: "lastData table_one_record ! 0 = [1, 2, 3, 4, 5, 6, 7, 8]"
    by (simp add: table_one_record_def init_globals_def MAX_UNIQUE_IDS_def)
  have "lastData s' ! 0 = [9, 9, 9, 4, 5, 6, 7, 8]"
  proof (rule nth_equalityI)
    show "length (lastData s' ! 0) = length [9, 9, 9, 4, 5, 6, 7, 8 :: u8]" using l i0 by simp
  next
    fix k assume "k < length (lastData s' ! 0)"
    with l i0 have "k < 8" by simp
    then consider "k < 3" | "k = 3" | "k = 4" | "k = 5" | "k = 6" | "k = 7" by linarith
    then show "lastData s' ! 0 ! k = [9, 9, 9, 4, 5, 6, 7, 8] ! k"
    proof cases
      case 1
      then consider "k = 0" | "k = 1" | "k = 2" by linarith
      then show ?thesis using lo i0 by cases simp_all
    qed (use hi i0 old in simp_all)
  qed
  with run i0 table_one_record_wf table_one_record_held show ?thesis by simp
qed

subsection \<open>The ring buffer keeps its invariant\<close>

lemma slot_distinct:
  assumes "k < L" "L - k < (N::nat)"
  shows "k mod N \<noteq> L mod N"
proof
  assume "k mod N = L mod N"
  then have "(L - k) mod N = 0" using assms(1) by (metis mod_eq_dvd_iff_nat less_imp_le_nat dvd_eq_mod_eq_0)
  moreover have "(L - k) mod N = L - k" using assms(2) by simp
  ultimately show False using assms(1) by simp
qed

lemma advance_log_fields:
  "logHead (advance_log s) = (logHead s + 1) mod LOG_BUFFER_SIZE"
  "logCount (advance_log s) = (if logCount s < LOG_BUFFER_SIZE then logCount s + 1 else logCount s)"
  "logBuffer (advance_log s) = logBuffer s"
  "nextSeq (advance_log s) = nextSeq s"
  "startTime (advance_log s) = startTime s"
  by (simp_all add: advance_log_def Let_def)

lemma advance_log_other:
  "uniqueIdCount (advance_log s) = uniqueIdCount s"
  "seenIds (advance_log s) = seenIds s"
  "idCounts (advance_log s) = idCounts s"
  "lastData (advance_log s) = lastData s"
  "messageCount (advance_log s) = messageCount s"
  "errorCount (advance_log s) = errorCount s"
  "currentBaud (advance_log s) = currentBaud s"
  by (simp_all add: advance_log_def Let_def)

lemma ring_step:
  assumes r: "ring its s"
    and e: "view e = it" "length (data e) = 8" "length (markText e) = 40"
  shows "ring (its @ [it])
           (advance_log (s\<lparr>logBuffer := (logBuffer s)[nat (logHead s) := e],
              nextSeq := nextSeq s + 1\<rparr>))"
proof -
  let ?L = "length its"
  let ?s' = "advance_log (s\<lparr>logBuffer := (logBuffer s)[nat (logHead s) := e],
              nextSeq := nextSeq s + 1\<rparr>)"
  from r have len: "length (logBuffer s) = 500"
    and cnt: "logCount s = int (min ?L 500)" and hd: "logHead s = int (?L mod 500)"
    and slots: "\<forall>k < 500. length (data (logBuffer s ! k)) = 8 \<and>
        length (markText (logBuffer s ! k)) = 40"
    and vw: "\<forall>k < ?L. ?L - k \<le> 500 \<longrightarrow> view (logBuffer s ! (k mod 500)) = its ! k"
    by (simp_all add: ring_def log_wf_def LOG_BUFFER_SIZE_def)
  have h: "nat (logHead s) = ?L mod 500" using hd by simp
  have buf: "logBuffer ?s' = (logBuffer s)[?L mod 500 := e]"
    by (simp add: advance_log_fields h)
  have "(int (?L mod 500) + 1) mod 500 = int (Suc ?L mod 500)"
    by (simp add: zmod_int mod_simps add.commute)
  then have head: "logHead ?s' = int (Suc ?L mod 500)"
    by (simp add: advance_log_fields hd LOG_BUFFER_SIZE_def)
  have count: "logCount ?s' = int (min (Suc ?L) 500)"
    by (simp add: advance_log_fields cnt LOG_BUFFER_SIZE_def)
  have slots': "length (data (logBuffer ?s' ! k)) = 8 \<and> length (markText (logBuffer ?s' ! k)) = 40"
    if "k < 500" for k
    unfolding buf using that slots e len by (cases "k = ?L mod 500") simp_all
  have vw': "view (logBuffer ?s' ! (k mod 500)) = (its @ [it]) ! k"
    if k: "k < Suc ?L" "Suc ?L - k \<le> 500" for k
  proof (cases "k = ?L")
    case True
    then show ?thesis unfolding buf using len e by simp
  next
    case False
    with k have lt: "k < ?L" and near: "?L - k < 500" "?L - k \<le> 500" by simp_all
    from slot_distinct [OF lt near(1)] have "(logBuffer s)[?L mod 500 := e] ! (k mod 500)
        = logBuffer s ! (k mod 500)" by simp
    with vw lt near(2) show ?thesis unfolding buf by (simp add: nth_append)
  qed
  have wf': "log_wf ?s'"
    unfolding log_wf_def using slots' head count len
    by (simp add: LOG_BUFFER_SIZE_def buf)
  show ?thesis
    unfolding ring_def using wf' head count vw'
    by (simp add: LOG_BUFFER_SIZE_def)
qed


lemma c_str_no_NUL: "NUL \<notin> set (take n (c_str text))"
proof
  assume "NUL \<in> set (take n (c_str text))"
  then have "NUL \<in> set (takeWhile (\<lambda>c. c \<noteq> NUL) text)"
    unfolding c_str_def by (rule in_set_takeD)
  then show False by (auto dest: set_takeWhileD)
qed

lemma c_str_padded:
  assumes "NUL \<notin> set t" "0 < k"
  shows "c_str (t @ replicate k NUL) = t"
proof -
  from assms(2) obtain j where k: "k = Suc j" by (cases k) simp_all
  have "takeWhile (\<lambda>c. c \<noteq> NUL) (t @ replicate k NUL)
      = t @ takeWhile (\<lambda>c. c \<noteq> NUL) (replicate k NUL)"
    using assms(1) by (intro takeWhile_append2) auto
  then show ?thesis by (simp add: c_str_def k)
qed

lemma update_last: "length xs = n \<Longrightarrow> (xs @ [x])[n := y] = xs @ [y]"
  by auto

lemma strncpy_markText:
  assumes "length dest = 40"
  shows "(strncpy dest text 39)[39 := NUL]
     = take 39 (c_str text) @ replicate (40 - length (take 39 (c_str text))) NUL"
proof -
  let ?t = "take 39 (c_str text)"
  have lt: "length ?t \<le> 39" by simp
  from assms have "length (drop 39 dest) = Suc 0" by simp
  then obtain x where last: "drop 39 dest = [x]"
    by (metis length_Suc_conv length_0_conv)
  have "strncpy dest text 39 = (?t @ replicate (39 - length ?t) NUL) @ [x]"
    by (simp add: strncpy_def Let_def last)
  moreover have "length (?t @ replicate (39 - length ?t) NUL) = 39" using lt by simp
  ultimately have "(strncpy dest text 39)[39 := NUL] = (?t @ replicate (39 - length ?t) NUL) @ [NUL]"
    by (simp only: update_last)
  also have "\<dots> = ?t @ replicate (Suc (39 - length ?t)) NUL"
    by (simp add: replicate_append_same)
  also have "Suc (39 - length ?t) = 40 - length ?t" using lt by simp
  finally show ?thesis by simp
qed

lemma log_append_shape:
  assumes wf: "log_wf s" and ok: "event_ok ev"
  shows "\<exists>e. log_append ev s =
           Some (advance_log (s\<lparr>logBuffer := (logBuffer s)[nat (logHead s) := e],
              nextSeq := nextSeq s + 1\<rparr>)) \<and>
         view e = item_of (startTime s) (nextSeq s) ev \<and> seq e = nextSeq s \<and>
         length (data e) = 8 \<and> length (markText e) = 40"
proof -
  let ?old = "logBuffer s ! nat (logHead s)"
  from wf have "0 \<le> logHead s" "logHead s < 500" by (simp_all add: log_wf_def LOG_BUFFER_SIZE_def)
  then have "nat (logHead s) < 500" by linarith
  with wf have old: "length (data ?old) = 8" "length (markText ?old) = 40"
    by (simp_all add: log_wf_def LOG_BUFFER_SIZE_def)
  show ?thesis
  proof (cases ev)
    case (Capture now cid ext rt len payload)
    with ok have p: "length payload = 8" by simp
    with old have cp: "memcpy (data ?old) payload 8 = Some payload"
      by (simp add: memcpy_def)
    let ?e = "?old\<lparr>timestamp := now - startTime s, seq := nextSeq s, can_id := cid,
        extended := ext, rtr := rt, dlc := len, data := payload, isMark := False,
        markText := (markText ?old)[0 := NUL]\<rparr>"
    show ?thesis
      unfolding Capture using old p
      by (intro exI [of _ "?e"]) (simp add: addToLog_def Let_def cp view_def)
  next
    case (Mark now str)
    have shown: "c_str ((strncpy (markText ?old) str 39)[39 := NUL]) = take 39 (c_str str)"
      unfolding strncpy_markText [OF old(2)]
      by (rule c_str_padded) (simp_all add: c_str_no_NUL)
    have tl: "length ((strncpy (markText ?old) str 39)[39 := NUL]) = 40"
      unfolding strncpy_markText [OF old(2)] by simp
    let ?e = "?old\<lparr>timestamp := now - startTime s, seq := nextSeq s, can_id := 0,
        extended := False, rtr := False, dlc := 0,
        data := replicate 8 0 @ drop 8 (data ?old), isMark := True,
        markText := (strncpy (markText ?old) str (40 - 1))[40 - 1 := NUL]\<rparr>"
    have "view ?e = item_of (startTime s) (nextSeq s) (Mark now str)"
      by (simp add: view_def shown)
    moreover have "length (markText ?e) = 40" using tl by simp
    moreover have "length (data ?e) = 8" using old by simp
    moreover have "log_append (Mark now str) s =
        Some (advance_log (s\<lparr>logBuffer := (logBuffer s)[nat (logHead s) := ?e],
              nextSeq := nextSeq s + 1\<rparr>))"
      by (simp add: addMarkToLog_def Let_def)
    moreover have "seq ?e = nextSeq s" by simp
    ultimately show ?thesis unfolding Mark by blast
  qed
qed

lemma ring_append:
  assumes r: "ring its s" and ok: "event_ok ev"
  shows "\<exists>s'. log_append ev s = Some s' \<and>
           ring (its @ [item_of (startTime s) (nextSeq s) ev]) s' \<and>
           nextSeq s' = nextSeq s + 1 \<and> startTime s' = startTime s \<and>
           seq (logBuffer s' ! nat (logHead s)) = nextSeq s"
proof -
  from r have wf: "log_wf s" by (simp add: ring_def)
  from log_append_shape [OF wf ok] obtain e where
    run: "log_append ev s =
           Some (advance_log (s\<lparr>logBuffer := (logBuffer s)[nat (logHead s) := e],
              nextSeq := nextSeq s + 1\<rparr>))"
    and e: "view e = item_of (startTime s) (nextSeq s) ev" "length (data e) = 8"
      "length (markText e) = 40" and sq: "seq e = nextSeq s"
    by blast
  from wf have "0 \<le> logHead s" "logHead s < 500" "length (logBuffer s) = 500"
    by (simp_all add: log_wf_def LOG_BUFFER_SIZE_def)
  then have "nat (logHead s) < length (logBuffer s)" by linarith
  then have "seq (logBuffer (advance_log (s\<lparr>logBuffer := (logBuffer s)[nat (logHead s) := e],
              nextSeq := nextSeq s + 1\<rparr>)) ! nat (logHead s)) = nextSeq s"
    by (simp add: advance_log_fields sq)
  with ring_step [OF r e] run show ?thesis
    by (simp add: advance_log_fields)
qed

lemma items_Nil: "items start sq [] = []"
  by (simp add: items_def)

lemma items_Cons: "items start sq (ev # evs) = item_of start sq ev # items start (sq + 1) evs"
proof -
  have "[0 ..< length (ev # evs)] = 0 # map Suc [0 ..< length evs]"
    by (simp add: upt_conv_Cons map_Suc_upt del: upt_Suc)
  then show ?thesis
    by (simp add: items_def comp_def ac_simps del: upt_Suc)
qed

lemma length_items: "length (items start sq evs) = length evs"
  by (simp add: items_def)

lemma appends_ring:
  "ring its s \<Longrightarrow> \<forall>ev \<in> set evs. event_ok ev \<Longrightarrow>
   \<exists>s'. appends evs s = Some s' \<and> ring (its @ items (startTime s) (nextSeq s) evs) s' \<and>
        nextSeq s' = nextSeq s + of_nat (length evs) \<and> startTime s' = startTime s"
proof (induction evs arbitrary: its s)
  case Nil
  then show ?case by (simp add: items_Nil)
next
  case (Cons ev evs)
  from Cons.prems(2) have ok: "event_ok ev" and rest: "\<forall>ev \<in> set evs. event_ok ev" by simp_all
  from ring_append [OF Cons.prems(1) ok] obtain s1 where
    step: "log_append ev s = Some s1"
    and r1: "ring (its @ [item_of (startTime s) (nextSeq s) ev]) s1"
    and sq: "nextSeq s1 = nextSeq s + 1" and st: "startTime s1 = startTime s"
    by blast
  from Cons.IH [OF r1 rest] show ?case
    by (simp add: step sq st items_Cons add.assoc)
qed

lemma ring_nth:
  assumes "ring its s" "k < length its" "length its - k \<le> 500"
  shows "view (logBuffer s ! (k mod 500)) = its ! k"
  using assms by (simp add: ring_def LOG_BUFFER_SIZE_def)

lemma ring_handleCSV:
  assumes r: "ring its s"
  shows "map view (fst (handleCSV s)) = drop (length its - 500) its"
proof -
  let ?L = "length its"
  from r have cnt: "logCount s = int (min ?L 500)" and hd: "logHead s = int (?L mod 500)"
    by (simp_all add: ring_def LOG_BUFFER_SIZE_def)
  show ?thesis
  proof (cases "?L < 500")
    case True
    have "view (logBuffer s ! nat ((0 + int i) mod 500)) = its ! i" if "i < ?L" for i
    proof -
      from that True have "nat ((0 + int i) mod 500) = i mod 500" "length its - i \<le> 500"
        by simp_all
      with ring_nth [OF r that] show ?thesis by simp
    qed
    then have "map view (fst (handleCSV s)) = map (\<lambda>i. its ! i) [0 ..< ?L]"
      using True cnt by (simp add: handleCSV_def LOG_BUFFER_SIZE_def)
    with True show ?thesis by (simp add: map_nth)
  next
    case False
    then have L: "500 \<le> ?L" by simp
    have "view (logBuffer s ! nat ((int (?L mod 500) + int i) mod 500)) = its ! (?L - 500 + i)"
      if "i < 500" for i
    proof -
      have "(int (?L mod 500) + int i) mod 500 = int ((?L + i) mod 500)"
        by (simp add: zmod_int mod_simps)
      also have "(?L + i) mod 500 = (?L - 500 + i + 500) mod 500" using L by simp
      also have "\<dots> = (?L - 500 + i) mod 500" by simp
      finally have "nat ((int (?L mod 500) + int i) mod 500) = (?L - 500 + i) mod 500" by simp
      moreover have "?L - 500 + i < ?L" "?L - (?L - 500 + i) \<le> 500" using L that by simp_all
      ultimately show ?thesis using ring_nth [OF r, of "?L - 500 + i"] by simp
    qed
    then have "map view (fst (handleCSV s)) = map (\<lambda>i. its ! (?L - 500 + i)) [0 ..< 500]"
      using False cnt hd by (simp add: handleCSV_def LOG_BUFFER_SIZE_def)
    also have "\<dots> = drop (?L - 500) its"
      using L by (intro nth_equalityI) simp_all
    finally show ?thesis .
  qed
qed

lemma walk_map:
  "0 \<le> idx \<Longrightarrow> idx < 500 \<Longrightarrow>
   walk buf idx c = map (\<lambda>j. buf ! nat ((idx + int j) mod 500)) [0 ..< c]"
proof (induction c arbitrary: idx)
  case 0
  then show ?case by simp
next
  case (Suc c)
  have step: "0 \<le> (idx + 1) mod 500" "(idx + 1) mod 500 < 500" by simp_all
  have shift: "((idx + 1) mod 500 + int j) mod 500 = (idx + int (Suc j)) mod 500" for j
    by (simp add: mod_simps add.commute add.left_commute)
  have "[0 ..< Suc c] = 0 # map Suc [0 ..< c]"
    by (simp add: upt_conv_Cons map_Suc_upt del: upt_Suc)
  then have "map (\<lambda>j. buf ! nat ((idx + int j) mod 500)) [0 ..< Suc c]
      = buf ! nat (idx mod 500) # map (\<lambda>j. buf ! nat ((idx + int (Suc j)) mod 500)) [0 ..< c]"
    by (simp add: comp_def del: upt_Suc of_nat_Suc)
  also have "idx mod 500 = idx" using Suc.prems by simp
  finally show ?case
    using Suc.IH [OF step] by (simp add: LOG_BUFFER_SIZE_def shift del: upt_Suc of_nat_Suc)
qed

lemma ring_snapshot:
  assumes r: "ring its s"
  shows "map view (fst (snapshot n s))
     = drop (length its - nat (min n (int (min (length its) 500)))) its"
proof -
  let ?L = "length its"
  define c where "c = nat (min n (int (min ?L 500)))"
  from r have cnt: "logCount s = int (min ?L 500)" and hd: "logHead s = int (?L mod 500)"
    by (simp_all add: ring_def LOG_BUFFER_SIZE_def)
  have c: "c \<le> ?L" "c \<le> 500" by (simp_all add: c_def)
  have nc: "nat (min n (logCount s)) = c" by (simp add: c_def cnt)
  have "map view (fst (snapshot n s)) = drop (?L - c) its"
  proof (cases "n \<le> 0")
    case True
    then have "c = 0" by (simp add: c_def)
    with nc show ?thesis by (simp add: snapshot_def Let_def)
  next
    case False
    then have count: "min n (logCount s) = int c" using cnt by (simp add: c_def)
    have idx: "(logHead s - min n (logCount s) + LOG_BUFFER_SIZE) mod LOG_BUFFER_SIZE
        = int ((?L - c) mod 500)"
    proof -
      have "(int (?L mod 500) - int c + 500) mod 500 = (int ?L - int c) mod 500"
        by (simp add: zmod_int mod_simps)
      also have "int ?L - int c = int (?L - c)" using c(1) by simp
      finally show ?thesis unfolding hd count LOG_BUFFER_SIZE_def by (simp add: zmod_int)
    qed
    have range: "0 \<le> int ((?L - c) mod 500)" "int ((?L - c) mod 500) < 500" by simp_all
    have "view (logBuffer s ! nat ((int ((?L - c) mod 500) + int j) mod 500)) = its ! (?L - c + j)"
      if "j < c" for j
    proof -
      have "(int ((?L - c) mod 500) + int j) mod 500 = int ((?L - c + j) mod 500)"
        by (simp add: zmod_int mod_simps)
      then have "nat ((int ((?L - c) mod 500) + int j) mod 500) = (?L - c + j) mod 500" by simp
      moreover have "?L - c + j < ?L" "?L - (?L - c + j) \<le> 500" using c that by linarith+
      ultimately show ?thesis using ring_nth [OF r, of "?L - c + j"] by simp
    qed
    then have "map view (fst (snapshot n s)) = map (\<lambda>j. its ! (?L - c + j)) [0 ..< c]"
      unfolding snapshot_def Let_def fst_conv idx nc walk_map [OF range] by simp
    also have "\<dots> = drop (?L - c) its"
      using c by (intro nth_equalityI) simp_all
    finally show ?thesis .
  qed
  then show ?thesis by (simp add: c_def)
qed

lemma ring_reset:
  assumes "log_wf s" "logHead s = 0" "logCount s = 0"
  shows "ring [] s"
  using assms by (simp add: ring_def)

lemma log_wf_handleClear: "log_wf s \<Longrightarrow> log_wf (handleClear now s)"
  by (simp add: log_wf_def handleClear_def LOG_BUFFER_SIZE_def)

lemma log_wf_init: "log_wf init_globals"
  by (simp add: log_wf_def init_globals_def zero_entry_def LOG_BUFFER_SIZE_def)

lemma length_walk: "length (walk buf idx c) = c"
  by (induction c arbitrary: idx) simp_all

lemma handleCSV_length: "length (fst (handleCSV s)) = nat (logCount s)"
  by (simp add: handleCSV_def Let_def)

subsection \<open>C6: after more appends than slots, the export holds the last 500\<close>

text \<open>
  Claim C6.  Start from a log that was just reset (head and fill level 0) and append
  \<open>LOG_BUFFER_SIZE + m\<close> entries, \<open>m > 0\<close>, frames and annotations in any order.  Every
  append returns, and \<^verbatim>\<open>handleCSV\<close> then visits exactly \<open>LOG_BUFFER_SIZE\<close> slots, which
  show the appends \<open>m + 1\<close> to \<open>LOG_BUFFER_SIZE + m\<close> in the order they were made (the
  first \<open>m\<close> were overwritten); it does not change the state.
\<close>

theorem drainAll_after_overflow:
  assumes "log_wf s0" "logHead s0 = 0" "logCount s0 = 0"
    and "\<forall>ev \<in> set evs. event_ok ev"
    and "0 < m" "length evs = nat LOG_BUFFER_SIZE + m"
  shows "\<exists>s. appends evs s0 = Some s \<and>
           length (fst (handleCSV s)) = nat LOG_BUFFER_SIZE \<and>
           map view (fst (handleCSV s)) = drop m (items (startTime s0) (nextSeq s0) evs) \<and>
           snd (handleCSV s) = s"
proof -
  from appends_ring [OF ring_reset [OF assms(1-3)] assms(4)]
  obtain s where run: "appends evs s0 = Some s"
    and r: "ring (items (startTime s0) (nextSeq s0) evs) s"
    by auto
  from r assms(6) have "logCount s = LOG_BUFFER_SIZE"
    by (simp add: ring_def length_items LOG_BUFFER_SIZE_def)
  then have len: "length (fst (handleCSV s)) = nat LOG_BUFFER_SIZE"
    by (simp add: handleCSV_length)
  from ring_handleCSV [OF r] assms(6)
  have "map view (fst (handleCSV s)) = drop m (items (startTime s0) (nextSeq s0) evs)"
    by (simp add: length_items LOG_BUFFER_SIZE_def)
  moreover have "snd (handleCSV s) = s" by (simp add: handleCSV_def Let_def)
  ultimately show ?thesis using run len by blast
qed

subsection \<open>C7: the snapshot is the tail of the retained entries\<close>

text \<open>
  Claim C7.  In every state that appends reach from a reset log, and for every bound
  \<open>n\<close>, \<open>snapshot n\<close> visits exactly \<open>min n logCount\<close> slots (none when \<open>n\<close> is
  negative), which show the most recent appends, oldest first, and it returns the state
  unchanged.  \<^verbatim>\<open>handleLog\<close> is \<open>snapshot 100\<close>.
\<close>

theorem snapshot_most_recent:
  assumes "log_wf s0" "logHead s0 = 0" "logCount s0 = 0"
    and "\<forall>ev \<in> set evs. event_ok ev"
  shows "\<exists>s. appends evs s0 = Some s \<and>
           logCount s = min (int (length evs)) LOG_BUFFER_SIZE \<and>
           length (fst (snapshot n s)) = nat (min n (logCount s)) \<and>
           map view (fst (snapshot n s))
             = drop (length evs - nat (min n (logCount s))) (items (startTime s0) (nextSeq s0) evs) \<and>
           snd (snapshot n s) = s \<and> handleLog s = snapshot 100 s"
proof -
  from appends_ring [OF ring_reset [OF assms(1-3)] assms(4)]
  obtain s where run: "appends evs s0 = Some s"
    and r: "ring (items (startTime s0) (nextSeq s0) evs) s"
    by auto
  from r have cnt: "logCount s = min (int (length evs)) LOG_BUFFER_SIZE"
    by (simp add: ring_def length_items LOG_BUFFER_SIZE_def)
  have len: "length (fst (snapshot n s)) = nat (min n (logCount s))"
    by (simp add: snapshot_def Let_def length_walk)
  have "int (min (length evs) 500) = min (int (length evs)) 500" by simp
  with ring_snapshot [OF r, of n] cnt
  have "map view (fst (snapshot n s))
      = drop (length evs - nat (min n (logCount s))) (items (startTime s0) (nextSeq s0) evs)"
    by (simp only: length_items LOG_BUFFER_SIZE_def)
  moreover have "snd (snapshot n s) = s" by (simp add: snapshot_def Let_def)
  moreover have "handleLog s = snapshot 100 s" by (simp add: handleLog_def)
  ultimately show ?thesis using run cnt len by blast
qed


lemma init_reset: "logHead init_globals = 0" "logCount init_globals = 0"
  "startTime init_globals = 0" "nextSeq init_globals = 1"
  by (simp_all add: init_globals_def)

theorem drainAll_after_overflow_witness:
  "log_wf init_globals \<and> logHead init_globals = 0 \<and> logCount init_globals = 0 \<and>
   event_ok (Capture 7 0x100 False False 8 [1, 2, 3, 4, 5, 6, 7, 8]) \<and> (0 :: nat) < 1 \<and>
   length (replicate 501 (Capture 7 0x100 False False 8 [1, 2, 3, 4, 5, 6, 7, 8]))
     = nat LOG_BUFFER_SIZE + 1 \<and>
   (\<exists>s. appends (replicate 501 (Capture 7 0x100 False False 8 [1, 2, 3, 4, 5, 6, 7, 8]))
          init_globals = Some s \<and>
        length (fst (handleCSV s)) = 500 \<and>
        map view (fst (handleCSV s))
          = map (\<lambda>k. Frame_item 7 (1 + of_nat k) 0x100 False False 8 [1, 2, 3, 4, 5, 6, 7, 8])
              [1 ..< 501])"
proof -
  let ?ev = "Capture 7 0x100 False False 8 [1, 2, 3, 4, 5, 6, 7, 8]"
  have ok: "\<forall>ev \<in> set (replicate 501 ?ev). event_ok ev" by simp
  have len: "length (replicate 501 ?ev) = nat LOG_BUFFER_SIZE + 1"
    by (simp add: LOG_BUFFER_SIZE_def)
  have its: "drop 1 (items (startTime init_globals) (nextSeq init_globals) (replicate 501 ?ev))
      = map (\<lambda>k. Frame_item 7 (1 + of_nat k) 0x100 False False 8 [1, 2, 3, 4, 5, 6, 7, 8])
          [1 ..< 501]"
    unfolding items_def init_reset length_replicate drop_map drop_upt
    by (rule map_cong) simp_all
  from drainAll_after_overflow [OF log_wf_init init_reset(1,2) ok _ len]
  show ?thesis
    unfolding its using log_wf_init init_reset len by (auto simp: LOG_BUFFER_SIZE_def)
qed

theorem snapshot_most_recent_witness:
  "log_wf init_globals \<and> logHead init_globals = 0 \<and> logCount init_globals = 0 \<and>
   event_ok (Capture 10 0x100 False False 2 [1, 2, 3, 4, 5, 6, 7, 8]) \<and>
   event_ok (Mark 20 ''Key ON'') \<and>
   event_ok (Capture 30 0x200 False False 8 [8, 7, 6, 5, 4, 3, 2, 1]) \<and>
   (\<exists>s. appends [Capture 10 0x100 False False 2 [1, 2, 3, 4, 5, 6, 7, 8], Mark 20 ''Key ON'',
            Capture 30 0x200 False False 8 [8, 7, 6, 5, 4, 3, 2, 1]] init_globals = Some s \<and>
        logCount s = 3 \<and>
        map view (fst (snapshot 2 s))
          = [Mark_item 20 2 ''Key ON'', Frame_item 30 3 0x200 False False 8 [8, 7, 6, 5, 4, 3, 2, 1]] \<and>
        snd (snapshot 2 s) = s)"
proof -
  let ?evs = "[Capture 10 0x100 False False 2 [1, 2, 3, 4, 5, 6, 7, 8], Mark 20 ''Key ON'',
            Capture 30 0x200 False False 8 [8, 7, 6, 5, 4, 3, 2, 1]]"
  have ok: "\<forall>ev \<in> set ?evs. event_ok ev" by simp
  have its: "items (startTime init_globals) (nextSeq init_globals) ?evs
      = [Frame_item 10 1 0x100 False False 2 [1, 2, 3, 4, 5, 6, 7, 8], Mark_item 20 2 ''Key ON'',
         Frame_item 30 3 0x200 False False 8 [8, 7, 6, 5, 4, 3, 2, 1]]"
    by (simp add: items_Cons items_Nil init_reset c_str_def NUL_def)
  from snapshot_most_recent [OF log_wf_init init_reset(1,2) ok, of 2]
  show ?thesis
    unfolding its using log_wf_init init_reset by (auto simp: LOG_BUFFER_SIZE_def)
qed

subsection \<open>Sequence numbers\<close>

lemma log_append_wf:
  assumes wf: "log_wf s" and ok: "event_ok ev"
  shows "\<exists>s'. log_append ev s = Some s' \<and> log_wf s' \<and> nextSeq s' = nextSeq s + 1 \<and>
           seq (logBuffer s' ! nat (logHead s)) = nextSeq s"
proof -
  from log_append_shape [OF wf ok] obtain e where
    run: "log_append ev s =
           Some (advance_log (s\<lparr>logBuffer := (logBuffer s)[nat (logHead s) := e],
              nextSeq := nextSeq s + 1\<rparr>))"
    and e: "length (data e) = 8" "length (markText e) = 40" and sq: "seq e = nextSeq s"
    by blast
  let ?s' = "advance_log (s\<lparr>logBuffer := (logBuffer s)[nat (logHead s) := e],
              nextSeq := nextSeq s + 1\<rparr>)"
  from wf have h: "0 \<le> logHead s" "logHead s < 500" and len: "length (logBuffer s) = 500"
    and c: "0 \<le> logCount s" "logCount s \<le> 500"
    and slots: "\<forall>k < 500. length (data (logBuffer s ! k)) = 8 \<and>
        length (markText (logBuffer s ! k)) = 40"
    by (simp_all add: log_wf_def LOG_BUFFER_SIZE_def)
  from h len have hl: "nat (logHead s) < length (logBuffer s)" by linarith
  have slots': "length (data (logBuffer ?s' ! k)) = 8 \<and> length (markText (logBuffer ?s' ! k)) = 40"
    if "k < 500" for k
    using that slots e len by (cases "k = nat (logHead s)") (simp_all add: advance_log_fields)
  have "log_wf ?s'"
    unfolding log_wf_def using slots' len c
    by (simp add: advance_log_fields LOG_BUFFER_SIZE_def)
  moreover have "seq (logBuffer ?s' ! nat (logHead s)) = nextSeq s"
    using hl by (simp add: advance_log_fields sq)
  ultimately show ?thesis using run by (simp add: advance_log_fields)
qed

lemma handleClear_fields:
  "nextSeq (handleClear now s) = nextSeq s" "logHead (handleClear now s) = 0"
  "logCount (handleClear now s) = 0" "logBuffer (handleClear now s) = logBuffer s"
  "uniqueIdCount (handleClear now s) = 0" "messageCount (handleClear now s) = 0"
  "errorCount (handleClear now s) = 0" "startTime (handleClear now s) = now"
  by (simp_all add: handleClear_def)

lemma run_log_seqs:
  "log_wf s \<Longrightarrow> \<forall>p \<in> set ops. op_ok p \<Longrightarrow>
   \<exists>sqs s'. run_log ops s = Some (sqs, s') \<and> log_wf s' \<and>
     sqs = map (\<lambda>k. nextSeq s + of_nat k) [0 ..< appends_in ops] \<and>
     nextSeq s' = nextSeq s + of_nat (appends_in ops)"
proof (induction ops arbitrary: s)
  case Nil
  then show ?case by simp
next
  case (Cons p ops)
  from Cons.prems(2) have rest: "\<forall>p \<in> set ops. op_ok p" by simp
  show ?case
  proof (cases p)
    case (Append ev)
    with Cons.prems(2) have "event_ok ev" by simp
    from log_append_wf [OF Cons.prems(1) this] obtain s1 where
      step: "log_append ev s = Some s1" and wf1: "log_wf s1"
      and sq: "nextSeq s1 = nextSeq s + 1"
      and written: "seq (logBuffer s1 ! nat (logHead s)) = nextSeq s"
      by blast
    from Cons.IH [OF wf1 rest] obtain sqs s' where
      run: "run_log ops s1 = Some (sqs, s')" and wf': "log_wf s'"
      and sqs: "sqs = map (\<lambda>k. nextSeq s1 + of_nat k) [0 ..< appends_in ops]"
      and nx: "nextSeq s' = nextSeq s1 + of_nat (appends_in ops)"
      by blast
    have "[0 ..< Suc (appends_in ops)] = 0 # map Suc [0 ..< appends_in ops]"
      by (simp add: upt_conv_Cons map_Suc_upt del: upt_Suc)
    then have "map (\<lambda>k. nextSeq s + of_nat k) [0 ..< Suc (appends_in ops)]
        = nextSeq s # sqs"
      unfolding sqs sq by (simp add: comp_def add.assoc del: upt_Suc)
    then have all: "nextSeq s # sqs
        = map (\<lambda>k. nextSeq s + of_nat k) [0 ..< appends_in (Append ev # ops)]"
      by (simp del: upt_Suc)
    have nx': "nextSeq s' = nextSeq s + of_nat (appends_in (Append ev # ops))"
      unfolding nx sq by (simp add: add.assoc)
    have go: "run_log (Append ev # ops) s = Some (nextSeq s # sqs, s')"
      by (simp add: step run written)
    show ?thesis unfolding Append
    proof (intro exI conjI)
      show "run_log (Append ev # ops) s = Some (nextSeq s # sqs, s')" by (fact go)
      show "log_wf s'" by (fact wf')
      show "nextSeq s # sqs
        = map (\<lambda>k. nextSeq s + of_nat k) [0 ..< appends_in (Append ev # ops)]" by (fact all)
      show "nextSeq s' = nextSeq s + of_nat (appends_in (Append ev # ops))" by (fact nx')
    qed
  next
    case (Clear now)
    from Cons.IH [OF log_wf_handleClear [OF Cons.prems(1), of now] rest]
    show ?thesis unfolding Clear by (simp add: handleClear_fields)
  qed
qed

lemma unat_add_of_nat:
  "unat (a :: u32) + k < 2 ^ 32 \<Longrightarrow> unat (a + of_nat k) = unat a + k"
proof -
  assume small: "unat a + k < 2 ^ 32"
  have "unat (a + of_nat k) = (unat a + k mod 2 ^ 32) mod 2 ^ 32"
    by (simp add: unat_word_ariths unat_of_nat)
  also have "\<dots> = (unat a + k) mod 2 ^ 32" by (simp add: mod_simps)
  also have "\<dots> = unat a + k" using small by simp
  finally show ?thesis .
qed

subsection \<open>C2: sequence numbers\<close>

text \<open>
  What the code does with sequence numbers.  Run appends (frames and annotations) and
  resets in any order from a well-formed log.  Every append returns; the sequence number
  stored by the \<open>k\<close>-th append of the run is \<open>nextSeq + k\<close> in 32 bit arithmetic,
  whatever resets come in between, so each is the one before plus 1 modulo \<open>2 ^ 32\<close>; as
  long as the run does not take the counter past \<open>2 ^ 32\<close>, the numbers read as naturals
  grow by exactly 1 per append.  A reset sets head and fill level to 0 and leaves
  \<open>nextSeq\<close> as it is.
\<close>

theorem sequence_numbers:
  assumes "log_wf s" "\<forall>p \<in> set ops. op_ok p"
  shows "(\<exists>sqs s'. run_log ops s = Some (sqs, s') \<and> length sqs = appends_in ops \<and>
            (\<forall>k < length sqs. sqs ! k = nextSeq s + of_nat k) \<and>
            nextSeq s' = nextSeq s + of_nat (appends_in ops) \<and>
            (unat (nextSeq s) + appends_in ops \<le> 2 ^ 32 \<longrightarrow>
               (\<forall>k < length sqs. unat (sqs ! k) = unat (nextSeq s) + k))) \<and>
         (\<forall>now. nextSeq (handleClear now s) = nextSeq s \<and>
            logHead (handleClear now s) = 0 \<and> logCount (handleClear now s) = 0)"
proof (rule conjI)
  from run_log_seqs [OF assms] obtain sqs s' where
    run: "run_log ops s = Some (sqs, s')"
    and sqs: "sqs = map (\<lambda>k. nextSeq s + of_nat k) [0 ..< appends_in ops]"
    and nx: "nextSeq s' = nextSeq s + of_nat (appends_in ops)"
    by blast
  from sqs have len: "length sqs = appends_in ops" by simp
  from sqs have nth: "sqs ! k = nextSeq s + of_nat k" if "k < length sqs" for k
    using that by simp
  have exact: "unat (sqs ! k) = unat (nextSeq s) + k"
    if "unat (nextSeq s) + appends_in ops \<le> 2 ^ 32" "k < length sqs" for k
  proof -
    from that len have "unat (nextSeq s) + k < 2 ^ 32" by simp
    from unat_add_of_nat [OF this] nth [OF that(2)] show ?thesis by simp
  qed
  show "\<exists>sqs s'. run_log ops s = Some (sqs, s') \<and> length sqs = appends_in ops \<and>
            (\<forall>k < length sqs. sqs ! k = nextSeq s + of_nat k) \<and>
            nextSeq s' = nextSeq s + of_nat (appends_in ops) \<and>
            (unat (nextSeq s) + appends_in ops \<le> 2 ^ 32 \<longrightarrow>
               (\<forall>k < length sqs. unat (sqs ! k) = unat (nextSeq s) + k))"
  proof (intro exI conjI allI impI)
    show "run_log ops s = Some (sqs, s')" by (fact run)
    show "length sqs = appends_in ops" by (fact len)
    show "sqs ! k = nextSeq s + of_nat k" if "k < length sqs" for k by (rule nth [OF that])
    show "nextSeq s' = nextSeq s + of_nat (appends_in ops)" by (fact nx)
    show "unat (sqs ! k) = unat (nextSeq s) + k"
      if "unat (nextSeq s) + appends_in ops \<le> 2 ^ 32" "k < length sqs" for k
      by (rule exact [OF that])
  qed
next
  show "\<forall>now. nextSeq (handleClear now s) = nextSeq s \<and>
            logHead (handleClear now s) = 0 \<and> logCount (handleClear now s) = 0"
    by (simp add: handleClear_fields)
qed

theorem sequence_numbers_witness:
  "log_wf init_globals \<and>
   op_ok (Append (Capture 10 0x100 False False 2 [1, 2, 3, 4, 5, 6, 7, 8])) \<and>
   op_ok (Clear 50) \<and> op_ok (Append (Mark 60 ''Key ON'')) \<and>
   (\<exists>sqs s'. run_log [Append (Capture 10 0x100 False False 2 [1, 2, 3, 4, 5, 6, 7, 8]), Clear 50,
         Append (Mark 60 ''Key ON''),
         Append (Capture 70 0x100 False False 2 [1, 2, 3, 4, 5, 6, 7, 8])] init_globals
       = Some (sqs, s') \<and>
      sqs = [1, 2, 3] \<and> nextSeq s' = 4)"
proof -
  let ?ops = "[Append (Capture 10 0x100 False False 2 [1, 2, 3, 4, 5, 6, 7, 8]), Clear 50,
         Append (Mark 60 ''Key ON''),
         Append (Capture 70 0x100 False False 2 [1, 2, 3, 4, 5, 6, 7, 8])]"
  have ok: "\<forall>p \<in> set ?ops. op_ok p" by simp
  from sequence_numbers [OF log_wf_init ok, THEN conjunct1]
  obtain sqs s' where run: "run_log ?ops init_globals = Some (sqs, s')"
    and len: "length sqs = 3"
    and nth: "\<forall>k < length sqs. sqs ! k = nextSeq init_globals + of_nat k"
    and nx: "nextSeq s' = nextSeq init_globals + of_nat (appends_in ?ops)"
    by auto
  have "sqs = [1, 2, 3]"
  proof (rule nth_equalityI)
    show "length sqs = length [1, 2, 3 :: u32]" using len by simp
  next
    fix k assume "k < length sqs"
    with len consider "k = 0" | "k = 1" | "k = 2" by linarith
    then show "sqs ! k = [1, 2, 3] ! k"
      using nth len by cases (simp_all add: init_reset)
  qed
  moreover from nx have "nextSeq s' = 4" by (simp add: init_reset)
  ultimately show ?thesis using run log_wf_init by simp
qed

lemma appends_in_replicate: "appends_in (replicate n (Append ev)) = n"
  by (induction n) simp_all

text \<open>
  Claim C2: for every sequence of appends, with resets in between, the sequence numbers
  are strictly increasing, by exactly 1 per append, and a reset does not lower the next
  one.  The source says the same of \<^verbatim>\<open>seq\<close> (``monotonic sequence number for dedup by
  polling clients'') and of \<^verbatim>\<open>nextSeq\<close> (``never resets to 0'').  The code does not keep
  this: \<^verbatim>\<open>nextSeq\<close> is a \<^verbatim>\<open>uint32_t\<close> that starts at 1 and \<^verbatim>\<open>nextSeq++\<close> wraps.
  Of \<open>2 ^ 32\<close> appends from the initial state, the last but one stores \<open>0xFFFFFFFF\<close>
  and the last stores 0, which is not greater.
\<close>

theorem sequence_number_wraps:
  "\<exists>sqs s'. run_log (replicate (2 ^ 32) (Append (Mark 0 ''Key ON''))) init_globals = Some (sqs, s') \<and>
     sqs ! 4294967294 = 0xFFFFFFFF \<and> sqs ! 4294967295 = 0 \<and>
     \<not> unat (sqs ! 4294967294) < unat (sqs ! 4294967295)"
proof -
  let ?ops = "replicate (2 ^ 32) (Append (Mark 0 ''Key ON''))"
  have ok: "\<forall>p \<in> set ?ops. op_ok p" by simp
  from run_log_seqs [OF log_wf_init ok] obtain sqs s' where
    run: "run_log ?ops init_globals = Some (sqs, s')"
    and sqs: "sqs = map (\<lambda>k. nextSeq init_globals + of_nat k) [0 ..< appends_in ?ops]"
    by blast
  have n: "appends_in ?ops = 4294967296" by (simp add: appends_in_replicate)
  have a: "sqs ! 4294967294 = 0xFFFFFFFF" unfolding sqs n by (simp add: init_reset)
  have b: "sqs ! 4294967295 = 0" unfolding sqs n by (simp add: init_reset)
  show ?thesis
  proof (intro exI conjI)
    show "run_log ?ops init_globals = Some (sqs, s')" by (fact run)
    show "sqs ! 4294967294 = 0xFFFFFFFF" by (fact a)
    show "sqs ! 4294967295 = 0" by (fact b)
    show "\<not> unat (sqs ! 4294967294) < unat (sqs ! 4294967295)" unfolding a b by simp
  qed
qed




subsection \<open>C10: what an annotation request stores\<close>





subsection \<open>The candidate loop of the scan\<close>

lemma handleScan_loop_best:
  "(bestRate (handleScan_loop envs r acc), bestScore (handleScan_loop envs r acc))
     = select_best (map handleScan_score envs) r (bestRate acc, bestScore acc)"
proof (induction envs r acc rule: handleScan_loop.induct)
  case (1 r acc)
  show ?case by simp
next
  case (2 envs r acc)
  then show ?case by simp
next
  case (3 scanStart passes envs r acc)
  then show ?case by (simp add: Let_def)
qed






lemma handleScan_selected:
  assumes "length envs = 4"
    and "select_best (map handleScan_score envs) 0 (- 1, 0) = (b, sc)"
  shows "snd (handleScan envs s) = (if b \<ge> 0 then s\<lparr>currentBaud := rates ! nat b\<rparr> else s)"
proof -
  let ?acc = "handleScan_loop envs 0 \<lparr>json = [], bestRate = - 1, bestScore = 0\<rparr>"
  from handleScan_loop_best [of envs 0 "\<lparr>json = [], bestRate = - 1, bestScore = 0\<rparr>"] assms(2)
  have "bestRate ?acc = b" by simp
  with assms(1) show ?thesis by (simp add: handleScan_def Let_def)
qed


subsection \<open>C3: which rate the scan selects\<close>


lemma scan_example_scores:
  "map handleScan_score
     [InitOk 0 [], InitFails,
      InitOk 0 [(1, RxOk 0x100 8 [1, 2, 3, 4, 5, 6, 7, 8]), (2, RxErr),
                (3, RxOk 0x100 8 [1, 2, 3, 4, 5, 6, 7, 8])],
      InitOk 0 [(1, RxOk 0x200 8 [1, 2, 3, 4, 5, 6, 7, 8])]]
   = [Some 0, None, Some 2, Some 1]"
  by code_simp



lemma f32_round_0: "f32_round 0 = 0"
  by (simp add: f32_round_def)

lemma f32_of_int_10: "f32_of_int 10 = 10"
  by code_simp

lemma repeatRate_spec:
  "0 \<le> ids \<Longrightarrow>
   repeatRate msgs ids = (if ids = 0 then 0 else f32_div (f32_of_ulong msgs) (f32_of_int ids))"
proof (cases "msgs = 0")
  case True
  then show ?thesis
    by (simp add: repeatRate_def f32_div_def f32_of_ulong_def f32_round_0)
next
  case False
  assume "0 \<le> ids"
  moreover from False have "0 < msgs" by (simp add: word_neq_0_conv)
  ultimately show ?thesis by (simp add: repeatRate_def)
qed

lemma scan_rx_ids:
  "0 \<le> scanUniqueIds t \<Longrightarrow> 0 \<le> scanUniqueIds (scan_rx rxId t)"
  by (simp add: scan_rx_def Let_def split: option.split)

lemma scan_window_ids:
  assumes "\<And>p t. 0 \<le> ids t \<Longrightarrow> 0 \<le> ids (body p t)"
  shows "0 \<le> ids t \<Longrightarrow> 0 \<le> ids (scan_window body window scanStart passes t)"
proof (induction passes arbitrary: t)
  case Nil
  then show ?case by simp
next
  case (Cons x passes)
  obtain now p where x: "x = (now, p)" by (cases x)
  from Cons.prems assms have "0 \<le> ids (body p t)" by simp
  from Cons.IH [OF this] Cons.prems show ?case by (simp add: x)
qed

lemma handleScan_trial_ids:
  "0 \<le> scanUniqueIds (scan_window handleScan_poll 3000 scanStart passes scan_reset)"
proof (rule scan_window_ids)
  fix p and t :: scan_vars
  assume "0 \<le> scanUniqueIds t"
  then show "0 \<le> scanUniqueIds (handleScan_poll p t)"
    by (cases p) (simp_all add: handleScan_poll_def scan_rx_ids)
next
  show "0 \<le> scanUniqueIds scan_reset" by (simp add: scan_reset_def)
qed

lemma autoScan_trial_ids:
  "0 \<le> scanUniqueIds (scan_window autoScan_poll 5000 scanStart passes autoScan_reset)"
proof (rule scan_window_ids)
  fix p and t :: autoScan_vars
  assume "0 \<le> scanUniqueIds t"
  then show "0 \<le> scanUniqueIds (autoScan_poll p t)"
    by (cases p) (simp_all add: autoScan_poll_def scan_rx_ids)
next
  show "0 \<le> scanUniqueIds autoScan_reset" by (simp add: autoScan_reset_def)
qed

subsection \<open>C4: the verdict on one candidate\<close>

text \<open>
  Claim C4.  With \<open>msgs\<close> frames and \<open>ids\<close> identifiers counted in a trial (\<open>ids\<close> is
  never negative), the repeat rate is the single precision quotient \<open>msgs / ids\<close>, and 0
  when \<open>ids = 0\<close>.  The verdict is \<open>NO_DATA\<close> exactly when \<open>msgs = 0\<close>; otherwise
  \<open>LIKELY_CORRECT\<close> exactly when \<open>ids \<le> 20\<close> and the repeat rate exceeds 10; otherwise
  \<open>NOISE\<close> exactly when \<open>ids > 30\<close>; otherwise \<open>UNCERTAIN\<close>.  The result that
  \<^verbatim>\<open>handleScan\<close> and \<^verbatim>\<open>autoScan\<close> report for a candidate that could be initialised
  carries these values for the counts of its trial.
\<close>

theorem verdict_classification:
  assumes "0 \<le> ids"
  shows "repeatRate msgs ids
           = (if ids = 0 then 0 else f32_div (f32_of_ulong msgs) (f32_of_int ids)) \<and>
         (verdict msgs ids = NO_DATA \<longleftrightarrow> msgs = 0) \<and>
         (msgs \<noteq> 0 \<longrightarrow>
            (verdict msgs ids = LIKELY_CORRECT \<longleftrightarrow> ids \<le> 20 \<and> repeatRate msgs ids > 10)) \<and>
         (msgs \<noteq> 0 \<and> \<not> (ids \<le> 20 \<and> repeatRate msgs ids > 10) \<longrightarrow>
            (verdict msgs ids = NOISE \<longleftrightarrow> ids > 30)) \<and>
         (msgs \<noteq> 0 \<and> \<not> (ids \<le> 20 \<and> repeatRate msgs ids > 10) \<and> \<not> ids > 30 \<longrightarrow>
            verdict msgs ids = UNCERTAIN) \<and>
         (let t = scan_window handleScan_poll 3000 scanStart passes scan_reset
          in 0 \<le> scanUniqueIds t \<and>
             json (handleScan_loop [InitOk scanStart passes] r acc)
               = json acc @ [\<lparr>r_baud = rates ! nat r, r_msgs = scanMsgCount t,
                   r_ids = scanUniqueIds t,
                   r_repeat = repeatRate (scanMsgCount t) (scanUniqueIds t),
                   r_verdict = verdict (scanMsgCount t) (scanUniqueIds t),
                   r_idList = idList t\<rparr>]) \<and>
         (let t = scan_window autoScan_poll 5000 scanStart passes autoScan_reset
          in 0 \<le> scanUniqueIds t \<and>
             printed (autoScan_loop [InitOk scanStart passes] r acc')
               = printed acc' @ [\<lparr>l_baud = rates ! nat r, l_msgs = scanMsgCount t,
                   l_ids = scanUniqueIds t,
                   l_repeat = repeatRate (scanMsgCount t) (scanUniqueIds t),
                   l_errors = errRate t,
                   l_verdict = verdict (scanMsgCount t) (scanUniqueIds t),
                   l_idList = idList t\<rparr>])"
proof (intro conjI)
  show "repeatRate msgs ids
           = (if ids = 0 then 0 else f32_div (f32_of_ulong msgs) (f32_of_int ids))"
    by (rule repeatRate_spec [OF assms])
  show "verdict msgs ids = NO_DATA \<longleftrightarrow> msgs = 0"
    by (simp add: verdict_def)
  show "msgs \<noteq> 0 \<longrightarrow>
            (verdict msgs ids = LIKELY_CORRECT \<longleftrightarrow> ids \<le> 20 \<and> repeatRate msgs ids > 10)"
    by (simp add: verdict_def f32_of_int_10)
  show "msgs \<noteq> 0 \<and> \<not> (ids \<le> 20 \<and> repeatRate msgs ids > 10) \<longrightarrow>
            (verdict msgs ids = NOISE \<longleftrightarrow> ids > 30)"
    by (simp add: verdict_def f32_of_int_10)
  show "msgs \<noteq> 0 \<and> \<not> (ids \<le> 20 \<and> repeatRate msgs ids > 10) \<and> \<not> ids > 30 \<longrightarrow>
            verdict msgs ids = UNCERTAIN"
    by (simp add: verdict_def f32_of_int_10)
  show "let t = scan_window handleScan_poll 3000 scanStart passes scan_reset
          in 0 \<le> scanUniqueIds t \<and>
             json (handleScan_loop [InitOk scanStart passes] r acc)
               = json acc @ [\<lparr>r_baud = rates ! nat r, r_msgs = scanMsgCount t,
                   r_ids = scanUniqueIds t,
                   r_repeat = repeatRate (scanMsgCount t) (scanUniqueIds t),
                   r_verdict = verdict (scanMsgCount t) (scanUniqueIds t),
                   r_idList = idList t\<rparr>]"
    using handleScan_trial_ids [of scanStart passes] by (simp add: Let_def)
  show "let t = scan_window autoScan_poll 5000 scanStart passes autoScan_reset
          in 0 \<le> scanUniqueIds t \<and>
             printed (autoScan_loop [InitOk scanStart passes] r acc')
               = printed acc' @ [\<lparr>l_baud = rates ! nat r, l_msgs = scanMsgCount t,
                   l_ids = scanUniqueIds t,
                   l_repeat = repeatRate (scanMsgCount t) (scanUniqueIds t),
                   l_errors = errRate t,
                   l_verdict = verdict (scanMsgCount t) (scanUniqueIds t),
                   l_idList = idList t\<rparr>]"
    using autoScan_trial_ids [of scanStart passes] by (simp add: Let_def)
qed

lemma repeatRate_120_6: "repeatRate 120 6 = 20"
  by code_simp

lemma repeatRate_150_15: "repeatRate 150 15 = 10"
  by code_simp

theorem verdict_classification_witness:
  "(0 :: int) \<le> 6 \<and> (120 :: ulong) \<noteq> 0 \<and> repeatRate 120 6 = 20 \<and>
   verdict 120 6 = LIKELY_CORRECT \<and>
   (0 :: int) \<le> 15 \<and> repeatRate 150 15 = 10 \<and> verdict 150 15 = UNCERTAIN \<and>
   verdict 0 0 = NO_DATA"
proof -
  note a = verdict_classification [of 6 120, simplified repeatRate_120_6]
  note b = verdict_classification [of 15 150, simplified repeatRate_150_15]
  note c = verdict_classification [of 0 0]
  from a have "verdict 120 6 = LIKELY_CORRECT" by simp
  moreover from b have "verdict 150 15 = UNCERTAIN" by simp
  moreover from c have "verdict 0 0 = NO_DATA" by simp
  ultimately show ?thesis using repeatRate_120_6 repeatRate_150_15 by simp
qed

lemma scan_window_inside:
  "\<forall>x \<in> set passes. fst x - scanStart < window \<Longrightarrow>
   scan_window body window scanStart passes t = fold (\<lambda>x. body (snd x)) passes t"
proof (induction passes arbitrary: t)
  case Nil
  show ?case by simp
next
  case (Cons x passes)
  obtain now p where x: "x = (now, p)" by (cases x)
  from Cons.prems have "now - scanStart < window" "\<forall>x \<in> set passes. fst x - scanStart < window"
    by (simp_all add: x)
  with Cons.IH show ?case by (simp add: x)
qed








subsection \<open>C8: receive errors during a scan trial\<close>





lemma handleBaud_only_rate:
  "handleBaud arg s = s\<lparr>currentBaud := currentBaud (handleBaud arg s)\<rparr>"
  by (cases arg) (simp_all add: handleBaud_def)

lemma select_best_example: "select_best [Some 0, None, Some 2, Some 1] 0 (- 1, 0) = (2, 2)"
  by simp

lemma loop_can_example:
  "\<exists>s. loop_can 10 (RxOk 0x100 8 [1, 2, 3, 4, 5, 6, 7, 8]) init_globals = Some s \<and>
       uniqueIdCount s = 1 \<and> logCount s = 1 \<and> messageCount s = 1 \<and> currentBaud s = BAUD_250K"
  by (simp add: loop_can_def Let_def findOrAddId_def find_loop_stop memcpy_def addToLog_def
      advance_log_def init_globals_def zero_entry_def MAX_UNIQUE_IDS_def LOG_BUFFER_SIZE_def)

subsection \<open>C5: what a change of rate does to the live state\<close>

text \<open>
  Claim C5 asks that every change of rate is followed by a reset of the identifier table,
  the event log and the counters.  The serial variant does so: the commands \<open>1\<close> to
  \<open>4\<close> and a scan that selects a rate all call \<^verbatim>\<open>clearCounts\<close>.  The WiFi variant
  does not: \<^verbatim>\<open>handleBaud\<close> and \<^verbatim>\<open>handleScan\<close> write \<^verbatim>\<open>currentBaud\<close> and nothing
  else.  The theorem runs both on a state that has received one frame: after the WiFi
  handlers the table, the log and the message counter still hold that frame, after the
  serial command the table is empty.
\<close>

theorem reconfiguration_without_reset:
  "\<exists>s. loop_can 10 (RxOk 0x100 8 [1, 2, 3, 4, 5, 6, 7, 8]) init_globals = Some s \<and>
       uniqueIdCount s = 1 \<and> logCount s = 1 \<and> messageCount s = 1 \<and>
       currentBaud s = BAUD_250K \<and>
       handleBaud (Some 3) s = s\<lparr>currentBaud := BAUD_500K\<rparr> \<and>
       uniqueIdCount (handleBaud (Some 3) s) = 1 \<and> logCount (handleBaud (Some 3) s) = 1 \<and>
       messageCount (handleBaud (Some 3) s) = 1 \<and>
       snd (handleScan
         [InitOk 0 [], InitFails,
          InitOk 0 [(1, RxOk 0x100 8 [1, 2, 3, 4, 5, 6, 7, 8]), (2, RxErr),
                    (3, RxOk 0x100 8 [1, 2, 3, 4, 5, 6, 7, 8])],
          InitOk 0 [(1, RxOk 0x200 8 [1, 2, 3, 4, 5, 6, 7, 8])]] s)
         = s\<lparr>currentBaud := BAUD_500K\<rparr> \<and>
       s_uniqueIdCount (snd (s_findOrAddId 0x100 init_serial)) = 1 \<and>
       s_uniqueIdCount (serial_command CHR ''3'' [] 99 (snd (s_findOrAddId 0x100 init_serial))) = 0"
proof -
  let ?envs = "[InitOk 0 [], InitFails,
          InitOk 0 [(1, RxOk 0x100 8 [1, 2, 3, 4, 5, 6, 7, 8]), (2, RxErr),
                    (3, RxOk 0x100 8 [1, 2, 3, 4, 5, 6, 7, 8])],
          InitOk 0 [(1, RxOk 0x200 8 [1, 2, 3, 4, 5, 6, 7, 8])]]"
  from loop_can_example obtain s where
    s: "loop_can 10 (RxOk 0x100 8 [1, 2, 3, 4, 5, 6, 7, 8]) init_globals = Some s"
      "uniqueIdCount s = 1" "logCount s = 1" "messageCount s = 1" "currentBaud s = BAUD_250K"
    by blast
  have baud: "handleBaud (Some 3) s = s\<lparr>currentBaud := BAUD_500K\<rparr>"
    by (simp add: handleBaud_def)
  have best: "select_best (map handleScan_score ?envs) 0 (- 1, 0) = (2, 2)"
    unfolding scan_example_scores by (rule select_best_example)
  have scan: "snd (handleScan ?envs s) = s\<lparr>currentBaud := BAUD_500K\<rparr>"
    using handleScan_selected [OF _ best, of s] by (simp add: rates_def)
  have serial: "s_uniqueIdCount (snd (s_findOrAddId 0x100 init_serial)) = 1"
    "s_uniqueIdCount (serial_command CHR ''3'' [] 99 (snd (s_findOrAddId 0x100 init_serial))) = 0"
    by (simp_all add: s_findOrAddId_def find_loop_stop init_serial_def MAX_UNIQUE_IDS_def
        serial_command_def clearCounts_def)
  from s baud scan serial show ?thesis by (intro exI [of _ s]) simp
qed

end
